theory Spec2Isabelle
  imports Main "HOL-Library.Sublist"
begin

section \<open>Strings as Python sees them\<close>

text \<open>
  A Python \<open>str\<close> is modelled as a \<open>string\<close> whose characters are the code points
  below 256. The built-in methods the program calls are written out for that range:
  \<open>str.isspace\<close>, \<open>str.lower\<close>, \<open>str.strip\<close>, \<open>str.startswith\<close>, the operator
  \<open>in\<close>, \<open>str.split\<close> and slicing \<open>s[n:]\<close>.
\<close>

definition isspace :: "char \<Rightarrow> bool" where
  "isspace c = (c \<in> set [CHR 0x09, CHR 0x0A, CHR 0x0B, CHR 0x0C, CHR 0x0D,
                           CHR 0x1C, CHR 0x1D, CHR 0x1E, CHR 0x1F, CHR 0x20,
                           CHR 0x85, CHR 0xA0])"

definition lower_char :: "char \<Rightarrow> char" where
  "lower_char c =
     (let n = (of_char c :: nat)
      in if (65 \<le> n \<and> n \<le> 90) \<or> (192 \<le> n \<and> n \<le> 222 \<and> n \<noteq> 215)
         then char_of (n + 32) else c)"

definition lower :: "string \<Rightarrow> string" where
  "lower s = map lower_char s"

definition strip :: "string \<Rightarrow> string" where
  "strip s = rev (dropWhile isspace (rev (dropWhile isspace s)))"

definition startswith :: "string \<Rightarrow> string \<Rightarrow> bool" where
  "startswith s p = prefix p s"

text \<open>\<open>contains p s\<close> is Python's \<open>p in s\<close>: \<open>p\<close> occurs in \<open>s\<close> as a contiguous run.\<close>

fun contains :: "string \<Rightarrow> string \<Rightarrow> bool" where
  "contains p [] = (p = [])"
| "contains p (c # cs) = (prefix p (c # cs) \<or> contains p cs)"

text \<open>
  \<open>s.split(c)\<close> for a one-character separator: the pieces between the occurrences
  of \<open>c\<close>, always at least one piece.
\<close>

fun split_char :: "char \<Rightarrow> string \<Rightarrow> string list" where
  "split_char sep [] = [[]]"
| "split_char sep (c # cs) =
     (if c = sep then [] # split_char sep cs
      else (case split_char sep cs of
              [] \<Rightarrow> [[c]]
            | l # ls \<Rightarrow> (c # l) # ls))"

definition split_newline :: "string \<Rightarrow> string list" where
  "split_newline s = split_char (CHR 0x0A) s"

text \<open>
  \<open>s.split(sep, 1)\<close> for a non-empty separator: \<open>Some (before, after)\<close> at the first
  occurrence of \<open>sep\<close>, \<open>None\<close> when \<open>sep\<close> does not occur (Python then returns the
  one-element list \<open>[s]\<close>).
\<close>

fun split_once :: "string \<Rightarrow> string \<Rightarrow> (string \<times> string) option" where
  "split_once sep [] = None"
| "split_once sep (c # cs) =
     (if prefix sep (c # cs) then Some ([], drop (length sep) (c # cs))
      else (case split_once sep cs of
              None \<Rightarrow> None
            | Some (a, b) \<Rightarrow> Some (c # a, b)))"

section \<open>SecurityManager\<close>

definition DANGEROUS_PATTERNS :: "string list" where
  "DANGEROUS_PATTERNS =
     [''rm -rf'', ''sudo'', ''chmod'', ''chown'', ''> /dev'', ''dd'', ''mkfs'',
      ''passwd'', ''mv /*'', ''> /dev/sd'']"

text \<open>
  The loop of \<open>validate_command\<close> over the patterns, returning at the first match.
  The result is the pair \<open>(valid, message)\<close> of the source.
\<close>

fun validate_loop :: "string list \<Rightarrow> string \<Rightarrow> bool \<times> string" where
  "validate_loop [] command = (True, ''Command validated'')"
| "validate_loop (pattern # rest) command =
     (if contains pattern (lower command)
      then (False, ''Dangerous command detected: '' @ command)
      else validate_loop rest command)"

definition validate_command :: "string \<Rightarrow> bool \<times> string" where
  "validate_command command = validate_loop DANGEROUS_PATTERNS command"

section \<open>The execution plan and its parser\<close>

record file_artifact =
  path :: string
  content :: string

record execution_plan =
  files :: "file_artifact list"
  commands :: "string list"
  dependencies :: "string list"

text \<open>\<open>current_section\<close> of the parser: \<open>None\<close> or one of the three keys.\<close>

datatype plan_section = NoSection | FilesSection | CommandsSection | DependenciesSection

text \<open>
  The state of the loop in \<open>_parse_plan\<close>: the current section, the plan built so far,
  and the records handed to \<open>logger.error\<close> so far.
\<close>

record parse_state =
  current_section :: plan_section
  plan :: execution_plan
  logged :: "string list"

definition unpack_error :: string where
  "unpack_error = ''not enough values to unpack (expected 2, got 1)''"

text \<open>One iteration of the loop body, on one element of \<open>response.split('\n')\<close>.\<close>

definition parse_line :: "parse_state \<Rightarrow> string \<Rightarrow> parse_state" where
  "parse_line st raw =
     (let line = strip raw in
      if startswith line ''// FILES'' then st\<lparr>current_section := FilesSection\<rparr>
      else if startswith line ''// COMMANDS'' then st\<lparr>current_section := CommandsSection\<rparr>
      else if startswith line ''// DEPS'' then st\<lparr>current_section := DependenciesSection\<rparr>
      else if current_section st = FilesSection \<and> startswith line ''FILE:'' then
        (case split_once '' => '' (drop 6 line) of
           Some (p, file_content) \<Rightarrow>
             st\<lparr>plan := (plan st)\<lparr>files := files (plan st) @
                    [\<lparr>path = strip p, content = strip file_content\<rparr>]\<rparr>\<rparr>
         | None \<Rightarrow>
             st\<lparr>logged := logged st @
                    [''Error parsing file line: '' @ line @ '' - '' @ unpack_error]\<rparr>)
      else if current_section st = CommandsSection \<and> startswith line ''SHELL:'' then
        st\<lparr>plan := (plan st)\<lparr>commands := commands (plan st) @ [strip (drop 7 line)]\<rparr>\<rparr>
      else if current_section st = DependenciesSection \<and> startswith line ''PKG:'' then
        st\<lparr>plan := (plan st)\<lparr>dependencies := dependencies (plan st) @ [strip (drop 5 line)]\<rparr>\<rparr>
      else st)"

fun parse_lines :: "parse_state \<Rightarrow> string list \<Rightarrow> parse_state" where
  "parse_lines st [] = st"
| "parse_lines st (raw # rest) = parse_lines (parse_line st raw) rest"

definition empty_plan :: execution_plan where
  "empty_plan = \<lparr>files = [], commands = [], dependencies = []\<rparr>"

text \<open>
  The \<open>ProjectArchitect\<close> object: its two attributes. Of \<open>project_config\<close> only string
  values are kept (the executor reads the key \<open>name\<close>).
\<close>

record architect =
  project_config :: "string \<rightharpoonup> string"
  execution_plan :: execution_plan

text \<open>
  \<open>_parse_plan(self, response)\<close>: assigns a new plan to \<open>self.execution_plan\<close>, runs the
  loop, and returns the object together with what was logged.
\<close>

definition parse_plan :: "architect \<Rightarrow> string \<Rightarrow> architect \<times> string list" where
  "parse_plan self response =
     (let st = parse_lines
                 \<lparr>current_section = NoSection, plan = empty_plan, logged = []\<rparr>
                 (split_newline response)
      in (self\<lparr>execution_plan := plan st\<rparr>, logged st))"

text \<open>The six-line plan text of the round-trip property, joined by newlines.\<close>

definition canonical_plan_text :: string where
  "canonical_plan_text =
     ''// FILES'' @ [CHR 0x0A] @ ''FILE: a/b.txt => hello'' @ [CHR 0x0A] @
     ''// DEPS'' @ [CHR 0x0A] @ ''PKG: left-pad@1.0.0'' @ [CHR 0x0A] @
     ''// COMMANDS'' @ [CHR 0x0A] @ ''SHELL: echo hi''"

section \<open>Paths\<close>

text \<open>
  A \<open>pathlib.Path\<close> on a POSIX system: whether it is anchored at the file-system root,
  and its components. Parsing drops empty components and \<open>.\<close> components and keeps
  \<open>..\<close> components, as \<open>pathlib\<close> does. (A path starting with exactly two slashes,
  which \<open>pathlib\<close> keeps apart, is taken as absolute like the others.)
\<close>

record ppath =
  absolute :: bool
  parts :: "string list"

definition Path :: "string \<Rightarrow> ppath" where
  "Path s = \<lparr>absolute = startswith s ''/'',
             parts = filter (\<lambda>p. p \<noteq> [] \<and> p \<noteq> ''.'') (split_char (CHR ''/'') s)\<rparr>"

text \<open>The operator \<open>/\<close> of \<open>pathlib\<close>: an absolute right operand replaces the left one.\<close>

definition joinpath :: "ppath \<Rightarrow> ppath \<Rightarrow> ppath" where
  "joinpath a b =
     (if absolute b then b else \<lparr>absolute = absolute a, parts = parts a @ parts b\<rparr>)"

definition parent :: "ppath \<Rightarrow> ppath" where
  "parent p = p\<lparr>parts := butlast (parts p)\<rparr>"

text \<open>
  Where the operating system finds a path: the components are walked from the root (for
  an absolute path) or from the working directory \<open>cwd\<close>, and \<open>..\<close> steps to the
  parent directory (the root is its own parent). Symbolic links are not modelled.
\<close>

fun walk :: "string list \<Rightarrow> string list \<Rightarrow> string list" where
  "walk dir [] = dir"
| "walk dir (p # ps) = walk (if p = ''..'' then butlast dir else dir @ [p]) ps"

definition locate :: "string list \<Rightarrow> ppath \<Rightarrow> string list" where
  "locate cwd p = walk (if absolute p then [] else cwd) (parts p)"

definition inside :: "string list \<Rightarrow> ppath \<Rightarrow> ppath \<Rightarrow> bool" where
  "inside cwd root p = prefix (locate cwd root) (locate cwd p)"

section \<open>The executor\<close>

text \<open>
  What \<open>_execute_plan\<close> does to the outside world is recorded as a trace of events, in
  the order of the calls. \<open>Validate\<close> records a call of \<open>validate_command\<close> with its
  verdict; \<open>Run\<close> records a call of \<open>subprocess.run\<close> that spawned its process and
  returned; \<open>AddTask\<close> and \<open>Advance\<close> are the calls of \<open>progress.add_task\<close> and
  \<open>progress.update\<close>; the events of the three loops carry the stage they belong to.
\<close>

datatype stage = FilesStage | DependenciesStage | CommandsStage

datatype event =
    Mkdir ppath
  | AddTask stage nat
  | MkdirParents ppath
  | WriteText ppath string
  | Advance stage
  | Validate stage string bool
  | Run stage string ppath
  | LogError string

text \<open>
  The environment decides what the program cannot, given everything done so far:
  whether a file-system call raises (\<open>fs_error\<close>, with the message), whether
  \<open>subprocess.run\<close> itself raises instead of returning (\<open>run_error\<close>: a command it
  cannot pass to the shell, a working directory that is gone), and the return code of
  a process that ran.
\<close>

record env =
  fs_error :: "event list \<Rightarrow> event \<Rightarrow> string option"
  run_error :: "event list \<Rightarrow> event \<Rightarrow> string option"
  returncode :: "event list \<Rightarrow> string \<Rightarrow> int"

text \<open>
  The three ways \<open>_execute_plan\<close> raises: it re-raises the exception of a file-system
  call (after logging it), it raises \<open>Exception(msg)\<close> with the validator's message
  (after logging it), or an exception of \<open>subprocess.run\<close>, which is called outside any
  \<open>try\<close>, goes up as it is.
\<close>

datatype exn = FileSystemError string | Exception string | SpawnError string

text \<open>The first loop: create the files. \<open>h\<close> is the trace so far.\<close>

fun create_files ::
  "env \<Rightarrow> ppath \<Rightarrow> file_artifact list \<Rightarrow> event list \<Rightarrow> (exn + unit) \<times> event list" where
  "create_files ev project_dir [] h = (Inr (), h)"
| "create_files ev project_dir (file # rest) h =
     (let file_path = joinpath project_dir (Path (path file)) in
      case fs_error ev h (MkdirParents (parent file_path)) of
        Some e \<Rightarrow>
          (Inl (FileSystemError e),
           h @ [LogError (''Error creating file '' @ path file @ '': '' @ e)])
      | None \<Rightarrow>
          (let h1 = h @ [MkdirParents (parent file_path)] in
           case fs_error ev h1 (WriteText file_path (content file)) of
             Some e \<Rightarrow>
               (Inl (FileSystemError e),
                h1 @ [LogError (''Error creating file '' @ path file @ '': '' @ e)])
           | None \<Rightarrow>
               create_files ev project_dir rest
                 (h1 @ [WriteText file_path (content file), Advance FilesStage])))"

text \<open>The second loop: install the dependencies.\<close>

fun install_dependencies ::
  "env \<Rightarrow> ppath \<Rightarrow> string list \<Rightarrow> event list \<Rightarrow> (exn + unit) \<times> event list" where
  "install_dependencies ev project_dir [] h = (Inr (), h)"
| "install_dependencies ev project_dir (pkg # rest) h =
     (let (valid, msg) = validate_command (''npm install '' @ pkg);
          h1 = h @ [Validate DependenciesStage (''npm install '' @ pkg) valid] in
      if \<not> valid then (Inl (Exception msg), h1 @ [LogError msg])
      else
        (case run_error ev h1 (Run DependenciesStage (''npm install '' @ pkg) project_dir) of
           Some e \<Rightarrow> (Inl (SpawnError e), h1)
         | None \<Rightarrow>
             (let result = returncode ev h1 (''npm install '' @ pkg) in
              install_dependencies ev project_dir rest
                (h1 @ [Run DependenciesStage (''npm install '' @ pkg) project_dir,
                       Advance DependenciesStage]))))"

text \<open>The third loop: run the setup commands.\<close>

fun run_commands ::
  "env \<Rightarrow> ppath \<Rightarrow> string list \<Rightarrow> event list \<Rightarrow> (exn + unit) \<times> event list" where
  "run_commands ev project_dir [] h = (Inr (), h)"
| "run_commands ev project_dir (cmd # rest) h =
     (let (valid, msg) = validate_command cmd;
          h1 = h @ [Validate CommandsStage cmd valid] in
      if \<not> valid then (Inl (Exception msg), h1 @ [LogError msg])
      else
        (case run_error ev h1 (Run CommandsStage cmd project_dir) of
           Some e \<Rightarrow> (Inl (SpawnError e), h1)
         | None \<Rightarrow>
             (let result = returncode ev h1 cmd in
              run_commands ev project_dir rest
                (h1 @ [Run CommandsStage cmd project_dir, Advance CommandsStage]))))"

definition project_dir_of :: "architect \<Rightarrow> ppath" where
  "project_dir_of self =
     Path (case project_config self ''name'' of Some n \<Rightarrow> n | None \<Rightarrow> ''Project'')"

text \<open>\<open>_execute_plan(self)\<close>: the result (an exception or normal return) and the trace.\<close>

definition execute_plan :: "env \<Rightarrow> architect \<Rightarrow> (exn + unit) \<times> event list" where
  "execute_plan ev self =
     (let project_dir = project_dir_of self in
      case fs_error ev [] (Mkdir project_dir) of
        Some e \<Rightarrow>
          (Inl (FileSystemError e), [LogError (''Error creating project directory: '' @ e)])
      | None \<Rightarrow>
          (case create_files ev project_dir (files (execution_plan self))
                  [Mkdir project_dir,
                   AddTask FilesStage (length (files (execution_plan self)))] of
             (Inl x, h1) \<Rightarrow> (Inl x, h1)
           | (Inr u, h1) \<Rightarrow>
               (case install_dependencies ev project_dir (dependencies (execution_plan self))
                       (h1 @ [AddTask DependenciesStage
                                (length (dependencies (execution_plan self)))]) of
                  (Inl x, h2) \<Rightarrow> (Inl x, h2)
                | (Inr u, h2) \<Rightarrow>
                    run_commands ev project_dir (commands (execution_plan self))
                      (h2 @ [AddTask CommandsStage
                               (length (commands (execution_plan self)))]))))"

section \<open>Reading a trace\<close>

text \<open>
  What the properties of the executor are stated with: the stage an event belongs to,
  the files written, the commands given to the validator and the commands spawned in
  a stage, read off a trace in order.
\<close>

fun stage_of :: "event \<Rightarrow> stage option" where
  "stage_of (Mkdir p) = None"
| "stage_of (AddTask s n) = Some s"
| "stage_of (MkdirParents p) = Some FilesStage"
| "stage_of (WriteText p c) = Some FilesStage"
| "stage_of (Advance s) = Some s"
| "stage_of (Validate s c v) = Some s"
| "stage_of (Run s c d) = Some s"
| "stage_of (LogError m) = None"

fun stage_rank :: "stage \<Rightarrow> nat" where
  "stage_rank FilesStage = 0"
| "stage_rank DependenciesStage = 1"
| "stage_rank CommandsStage = 2"

fun stage_ranks :: "event list \<Rightarrow> nat list" where
  "stage_ranks [] = []"
| "stage_ranks (e # t) =
     (case stage_of e of None \<Rightarrow> stage_ranks t | Some s \<Rightarrow> stage_rank s # stage_ranks t)"

fun writes :: "event list \<Rightarrow> (ppath \<times> string) list" where
  "writes [] = []"
| "writes (WriteText p c # t) = (p, c) # writes t"
| "writes (e # t) = writes t"

fun validated :: "stage \<Rightarrow> event list \<Rightarrow> string list" where
  "validated s [] = []"
| "validated s (Validate s' c v # t) = (if s' = s then c # validated s t else validated s t)"
| "validated s (e # t) = validated s t"

fun runs :: "stage \<Rightarrow> event list \<Rightarrow> string list" where
  "runs s [] = []"
| "runs s (Run s' c d # t) = (if s' = s then c # runs s t else runs s t)"
| "runs s (e # t) = runs s t"

text \<open>
  Every spawn comes right after the validator accepted the same string in the same
  stage.
\<close>

definition runs_validated :: "event list \<Rightarrow> bool" where
  "runs_validated t =
     (\<forall>i < length t. \<forall>s c d. t ! i = Run s c d \<longrightarrow>
        0 < i \<and> t ! (i - 1) = Validate s c True)"

definition accepted :: "string \<Rightarrow> bool" where
  "accepted c = fst (validate_command c)"

definition install_command :: "string \<Rightarrow> string" where
  "install_command pkg = ''npm install '' @ pkg"

definition target :: "ppath \<Rightarrow> file_artifact \<Rightarrow> ppath" where
  "target project_dir file = joinpath project_dir (Path (path file))"

text \<open>The events of a file created, and of a command validated and spawned.\<close>

definition files_events :: "ppath \<Rightarrow> file_artifact list \<Rightarrow> event list" where
  "files_events project_dir fs =
     concat (map (\<lambda>f. [MkdirParents (parent (target project_dir f)),
                         WriteText (target project_dir f) (content f),
                         Advance FilesStage]) fs)"

definition spawn_events :: "stage \<Rightarrow> ppath \<Rightarrow> string list \<Rightarrow> event list" where
  "spawn_events s project_dir cs =
     concat (map (\<lambda>c. [Validate s c True, Run s c project_dir, Advance s]) cs)"

text \<open>
  The loop over the commands of a stage, as both the second and the third loop run it:
  the result, and the events it adds to the trace \<open>h\<close>. It stops at the first command
  the validator rejects and at the first call of \<open>subprocess.run\<close> that raises.
\<close>

fun spawn_loop ::
  "env \<Rightarrow> stage \<Rightarrow> ppath \<Rightarrow> string list \<Rightarrow> event list \<Rightarrow> (exn + unit) \<times> event list" where
  "spawn_loop ev s project_dir [] h = (Inr (), [])"
| "spawn_loop ev s project_dir (c # cs) h =
     (if \<not> accepted c
      then (Inl (Exception (snd (validate_command c))),
            [Validate s c False, LogError (snd (validate_command c))])
      else
        (case run_error ev (h @ [Validate s c True]) (Run s c project_dir) of
           Some e \<Rightarrow> (Inl (SpawnError e), [Validate s c True])
         | None \<Rightarrow>
             (let h' = h @ [Validate s c True, Run s c project_dir, Advance s] in
              (fst (spawn_loop ev s project_dir cs h'),
               Validate s c True # Run s c project_dir # Advance s #
               snd (spawn_loop ev s project_dir cs h')))))"

text \<open>The second and third stage together, after the trace \<open>h\<close> of the first.\<close>

definition later_stages ::
  "env \<Rightarrow> ppath \<Rightarrow> execution_plan \<Rightarrow> event list \<Rightarrow> (exn + unit) \<times> event list" where
  "later_stages ev project_dir p h =
     (let h1 = h @ [AddTask DependenciesStage (length (dependencies p))];
          installs = spawn_loop ev DependenciesStage project_dir
                       (map install_command (dependencies p)) h1 in
      case fst installs of
        Inl x \<Rightarrow> (Inl x, AddTask DependenciesStage (length (dependencies p)) # snd installs)
      | Inr u \<Rightarrow>
          (let setups = spawn_loop ev CommandsStage project_dir (commands p)
                          (h1 @ snd installs @ [AddTask CommandsStage (length (commands p))]) in
           (fst setups,
            AddTask DependenciesStage (length (dependencies p)) # snd installs @
            AddTask CommandsStage (length (commands p)) # snd setups)))"

text \<open>An environment in which no call raises and every process returns 1.\<close>

definition quiet_env :: env where
  "quiet_env =
     \<lparr>fs_error = (\<lambda>h e. None), run_error = (\<lambda>h e. None), returncode = (\<lambda>h c. 1)\<rparr>"

text \<open>A project named \<open>demo\<close> holding the plan of the round-trip property.\<close>

definition demo_architect :: architect where
  "demo_architect =
     \<lparr>project_config = [''name'' \<mapsto> ''demo''],
      execution_plan =
        \<lparr>files = [\<lparr>path = ''a/b.txt'', content = ''hello''\<rparr>],
         commands = [''echo hi''],
         dependencies = [''left-pad@1.0.0'']\<rparr>\<rparr>"

text \<open>
  A project whose plan holds a file path with a \<open>..\<close> segment and an absolute one.
\<close>

definition escaping_architect :: architect where
  "escaping_architect =
     \<lparr>project_config = [''name'' \<mapsto> ''demo''],
      execution_plan =
        \<lparr>files = [\<lparr>path = ''../evil.txt'', content = ''x''\<rparr>,
                  \<lparr>path = ''/tmp/evil.txt'', content = ''y''\<rparr>],
         commands = [],
         dependencies = []\<rparr>\<rparr>"

text \<open>The demo project with a rejected command between two accepted ones.\<close>

definition rejecting_architect :: architect where
  "rejecting_architect =
     \<lparr>project_config = [''name'' \<mapsto> ''demo''],
      execution_plan =
        \<lparr>files = [\<lparr>path = ''a/b.txt'', content = ''hello''\<rparr>],
         commands = [''echo hi'', ''sudo rm -rf /'', ''echo later''],
         dependencies = [''left-pad@1.0.0'']\<rparr>\<rparr>"

text \<open>
  An environment in which \<open>subprocess.run\<close> raises for a command holding a NUL
  character, and a project whose first command holds one.
\<close>

definition nul_env :: env where
  "nul_env =
     \<lparr>fs_error = (\<lambda>h e. None),
      run_error = (\<lambda>h e. case e of
                     Run s c d \<Rightarrow> if CHR 0x00 \<in> set c then Some ''embedded null byte'' else None
                   | _ \<Rightarrow> None),
      returncode = (\<lambda>h c. 0)\<rparr>"

definition nul_architect :: architect where
  "nul_architect =
     \<lparr>project_config = [''name'' \<mapsto> ''demo''],
      execution_plan =
        \<lparr>files = [],
         commands = [''echo a'' @ [CHR 0x00] @ ''b'', ''echo after''],
         dependencies = []\<rparr>\<rparr>"

section \<open>Properties of the validator\<close>

lemma contains_iff: "contains p s \<longleftrightarrow> (\<exists>u v. s = u @ p @ v)"
proof (induction s)
  case Nil
  then show ?case by auto
next
  case (Cons c cs)
  show ?case
  proof
    assume "contains p (c # cs)"
    then consider "prefix p (c # cs)" | "contains p cs" by auto
    then show "\<exists>u v. c # cs = u @ p @ v"
    proof cases
      case 1
      then obtain v where "c # cs = p @ v" by (auto simp: prefix_def)
      then have "c # cs = [] @ p @ v" by simp
      then show ?thesis by blast
    next
      case 2
      with Cons.IH obtain u v where "cs = u @ p @ v" by blast
      then have "c # cs = (c # u) @ p @ v" by simp
      then show ?thesis by blast
    qed
  next
    assume "\<exists>u v. c # cs = u @ p @ v"
    then obtain u v where uv: "c # cs = u @ p @ v" by blast
    show "contains p (c # cs)"
    proof (cases u)
      case Nil
      with uv have "prefix p (c # cs)" by (simp add: prefix_def)
      then show ?thesis by simp
    next
      case (Cons a u')
      with uv have "cs = u' @ p @ v" by simp
      with Cons.IH have "contains p cs" by blast
      then show ?thesis by simp
    qed
  qed
qed

lemma validate_loop_eq:
  "validate_loop ps c =
     (if \<exists>p \<in> set ps. contains p (lower c)
      then (False, ''Dangerous command detected: '' @ c)
      else (True, ''Command validated''))"
  by (induction ps) auto

text \<open>
  C1. \<open>validate_command\<close> rejects a command, with the reason naming the command,
  exactly when the lowercased command contains one of the deny-list patterns as a
  substring; every other command is accepted.
\<close>

theorem validate_command_rejects_iff:
  "validate_command c =
     (if \<exists>p \<in> set DANGEROUS_PATTERNS. \<exists>u v. lower c = u @ p @ v
      then (False, ''Dangerous command detected: '' @ c)
      else (True, ''Command validated''))"
  unfolding validate_command_def validate_loop_eq contains_iff ..

text \<open>The two examples of the specification.\<close>

theorem validate_command_examples:
  "validate_command ''sudo rm -rf /'' = (False, ''Dangerous command detected: sudo rm -rf /'')
   \<and> validate_command ''npm install left-pad'' = (True, ''Command validated'')"
proof -
  have bad: "\<exists>p \<in> set DANGEROUS_PATTERNS. contains p (lower ''sudo rm -rf /'')"
    by code_simp
  have good: "\<not> (\<exists>p \<in> set DANGEROUS_PATTERNS. contains p (lower ''npm install left-pad''))"
    by code_simp
  from bad have 1: "validate_command ''sudo rm -rf /'' =
      (False, ''Dangerous command detected: sudo rm -rf /'')"
    using validate_command_rejects_iff [of "''sudo rm -rf /''"]
    unfolding contains_iff by simp
  from good have 2: "validate_command ''npm install left-pad'' = (True, ''Command validated'')"
    using validate_command_rejects_iff [of "''npm install left-pad''"]
    unfolding contains_iff by simp
  from 1 2 show ?thesis by simp
qed

section \<open>Properties of the parser\<close>

lemma canonical_lines:
  "split_newline canonical_plan_text =
     [''// FILES'', ''FILE: a/b.txt => hello'', ''// DEPS'', ''PKG: left-pad@1.0.0'',
      ''// COMMANDS'', ''SHELL: echo hi'']"
  by (simp add: canonical_plan_text_def split_newline_def)

lemma canonical_parse_lines:
  "parse_lines \<lparr>current_section = NoSection, plan = empty_plan, logged = []\<rparr>
     [''// FILES'', ''FILE: a/b.txt => hello'', ''// DEPS'', ''PKG: left-pad@1.0.0'',
      ''// COMMANDS'', ''SHELL: echo hi''] =
   \<lparr>current_section = CommandsSection,
    plan = \<lparr>files = [\<lparr>path = ''a/b.txt'', content = ''hello''\<rparr>],
            commands = [''echo hi''], dependencies = [''left-pad@1.0.0'']\<rparr>,
    logged = []\<rparr>"
  by code_simp

text \<open>
  C2. Parsing the canonical six-line plan text gives exactly one file \<open>a/b.txt\<close> with
  content \<open>hello\<close>, the dependency \<open>left-pad@1.0.0\<close> and the command \<open>echo hi\<close>.
\<close>

theorem parse_canonical_plan:
  "execution_plan (fst (parse_plan self canonical_plan_text)) =
     \<lparr>files = [\<lparr>path = ''a/b.txt'', content = ''hello''\<rparr>],
      commands = [''echo hi''],
      dependencies = [''left-pad@1.0.0'']\<rparr>"
  unfolding parse_plan_def canonical_lines canonical_parse_lines by simp

lemma parse_lines_append:
  "parse_lines st (xs @ ys) = parse_lines (parse_lines st xs) ys"
  by (induction xs arbitrary: st) simp_all

lemma strip_decomp: "\<exists>a b. s = a @ strip s @ b"
proof -
  define t where "t = dropWhile isspace s"
  have "rev (takeWhile isspace (rev t) @ dropWhile isspace (rev t)) = rev (rev t)"
    by (simp only: takeWhile_dropWhile_id)
  then have "rev (dropWhile isspace (rev t)) @ rev (takeWhile isspace (rev t)) = t"
    by (simp only: rev_append rev_rev_ident)
  then have t: "strip s @ rev (takeWhile isspace (rev t)) = t"
    by (simp only: strip_def t_def)
  have "takeWhile isspace s @ t = s"
    by (simp only: t_def takeWhile_dropWhile_id)
  with t have "s = takeWhile isspace s @ strip s @ rev (takeWhile isspace (rev t))"
    by simp
  then show ?thesis by blast
qed

lemma contains_drop_strip:
  assumes "contains sep (drop n (strip s))"
  shows "contains sep s"
proof -
  define q where "q = strip s"
  define p where "p = take n q"
  from assms obtain u v where uv: "drop n q = u @ sep @ v"
    by (auto simp: contains_iff q_def)
  have "p @ drop n q = q" by (simp add: p_def)
  with uv have st: "q = (p @ u) @ sep @ v" by simp
  obtain a b where "s = a @ q @ b" unfolding q_def using strip_decomp by blast
  with st have "s = (a @ p @ u) @ sep @ (v @ b)" by simp
  then show ?thesis unfolding contains_iff by blast
qed

lemma split_once_None: "\<not> contains sep s \<Longrightarrow> split_once sep s = None"
  by (induction s) auto

lemma malformed_line_step:
  assumes files: "current_section st = FilesSection"
    and tag: "startswith (strip bad) ''FILE:''"
    and nosep: "\<not> contains '' => '' bad"
  shows "parse_line st bad =
           st\<lparr>logged := logged st @
                 [''Error parsing file line: '' @ strip bad @ '' - '' @ unpack_error]\<rparr>"
proof -
  from tag obtain z where z: "strip bad = ''FILE:'' @ z"
    by (auto simp: startswith_def prefix_def)
  from nosep have "\<not> contains '' => '' (drop 6 (strip bad))"
    using contains_drop_strip by blast
  then have none: "split_once '' => '' (drop 6 (strip bad)) = None"
    by (rule split_once_None)
  from z have markers: "\<not> startswith (strip bad) ''// FILES''"
      "\<not> startswith (strip bad) ''// COMMANDS''" "\<not> startswith (strip bad) ''// DEPS''"
    by (simp_all add: startswith_def)
  show ?thesis
    unfolding parse_line_def Let_def using files tag none markers by simp
qed

lemma parse_line_extra_log:
  assumes "current_section s1 = current_section s2" "plan s1 = plan s2"
    and "logged s1 = K @ m # R" "logged s2 = K @ R"
  shows "\<exists>R'. current_section (parse_line s1 raw) = current_section (parse_line s2 raw)
            \<and> plan (parse_line s1 raw) = plan (parse_line s2 raw)
            \<and> logged (parse_line s1 raw) = K @ m # R'
            \<and> logged (parse_line s2 raw) = K @ R'"
  using assms unfolding parse_line_def Let_def
  by (auto split: option.splits)

lemma parse_lines_extra_log:
  assumes "current_section s1 = current_section s2" "plan s1 = plan s2"
    and "logged s1 = K @ m # R" "logged s2 = K @ R"
  shows "\<exists>R'. plan (parse_lines s1 ls) = plan (parse_lines s2 ls)
            \<and> logged (parse_lines s1 ls) = K @ m # R'
            \<and> logged (parse_lines s2 ls) = K @ R'"
  using assms
proof (induction ls arbitrary: s1 s2 R)
  case Nil
  then show ?case by simp
next
  case (Cons raw rest)
  from parse_line_extra_log [OF Cons.prems, of raw]
  obtain R' where
    "current_section (parse_line s1 raw) = current_section (parse_line s2 raw)"
    "plan (parse_line s1 raw) = plan (parse_line s2 raw)"
    "logged (parse_line s1 raw) = K @ m # R'"
    "logged (parse_line s2 raw) = K @ R'"
    by blast
  from Cons.IH [OF this] show ?case by simp
qed

text \<open>
  C7. A line that starts with \<open>FILE:\<close> while the parser is in the files section and
  that lacks the separator \<open>" => "\<close> is logged and skipped: the parsed plan is the
  plan of the same text without that line, and the log is the log of that text with
  the one record for the malformed line put in.
\<close>

theorem malformed_file_line_skipped:
  assumes lines: "split_newline text = pre @ bad # post"
    and lines': "split_newline text' = pre @ post"
    and files: "current_section
        (parse_lines \<lparr>current_section = NoSection, plan = empty_plan, logged = []\<rparr> pre)
          = FilesSection"
    and tag: "startswith (strip bad) ''FILE:''"
    and nosep: "\<not> contains '' => '' bad"
  shows "execution_plan (fst (parse_plan self text)) =
           execution_plan (fst (parse_plan self text'))
       \<and> (\<exists>K R. snd (parse_plan self text') = K @ R
            \<and> snd (parse_plan self text) =
                K @ (''Error parsing file line: '' @ strip bad @ '' - '' @ unpack_error) # R)"
proof -
  let ?init = "\<lparr>current_section = NoSection, plan = empty_plan, logged = []\<rparr>"
  let ?sp = "parse_lines ?init pre"
  let ?m = "''Error parsing file line: '' @ strip bad @ '' - '' @ unpack_error"
  have step: "parse_line ?sp bad = ?sp\<lparr>logged := logged ?sp @ [?m]\<rparr>"
    using files tag nosep by (rule malformed_line_step)
  have "\<exists>R'. plan (parse_lines (parse_line ?sp bad) post) = plan (parse_lines ?sp post)
            \<and> logged (parse_lines (parse_line ?sp bad) post) = logged ?sp @ ?m # R'
            \<and> logged (parse_lines ?sp post) = logged ?sp @ R'"
    by (rule parse_lines_extra_log [where R = "[]"]) (simp_all add: step)
  then obtain R' where
    p: "plan (parse_lines (parse_line ?sp bad) post) = plan (parse_lines ?sp post)"
    and l1: "logged (parse_lines (parse_line ?sp bad) post) = logged ?sp @ ?m # R'"
    and l2: "logged (parse_lines ?sp post) = logged ?sp @ R'"
    by blast
  have w: "parse_lines ?init (pre @ bad # post) = parse_lines (parse_line ?sp bad) post"
    by (simp add: parse_lines_append)
  have w': "parse_lines ?init (pre @ post) = parse_lines ?sp post"
    by (simp add: parse_lines_append)
  have "execution_plan (fst (parse_plan self text)) =
           execution_plan (fst (parse_plan self text'))"
    by (simp add: parse_plan_def Let_def lines lines' w w' p del: parse_lines.simps)
  moreover have "snd (parse_plan self text') = logged ?sp @ R'"
    by (simp add: parse_plan_def Let_def lines' w' l2 del: parse_lines.simps)
  moreover have "snd (parse_plan self text) = logged ?sp @ ?m # R'"
    by (simp add: parse_plan_def Let_def lines w l1 del: parse_lines.simps)
  ultimately show ?thesis by blast
qed

text \<open>A malformed line between the marker and a well-formed entry.\<close>

theorem malformed_file_line_example:
  "execution_plan (fst (parse_plan \<lparr>project_config = Map.empty, execution_plan = empty_plan\<rparr>
      (''// FILES'' @ [CHR 0x0A] @ ''FILE: broken'' @ [CHR 0x0A] @ ''FILE: a => b''))) =
     \<lparr>files = [\<lparr>path = ''a'', content = ''b''\<rparr>], commands = [], dependencies = []\<rparr>"
proof -
  let ?self = "\<lparr>project_config = Map.empty, execution_plan = empty_plan\<rparr>"
  let ?text = "''// FILES'' @ [CHR 0x0A] @ ''FILE: broken'' @ [CHR 0x0A] @ ''FILE: a => b''"
  let ?text' = "''// FILES'' @ [CHR 0x0A] @ ''FILE: a => b''"
  have lines: "split_newline ?text = [''// FILES''] @ ''FILE: broken'' # [''FILE: a => b'']"
    by (simp add: split_newline_def)
  have lines': "split_newline ?text' = [''// FILES''] @ [''FILE: a => b'']"
    by (simp add: split_newline_def)
  have files: "current_section
      (parse_lines \<lparr>current_section = NoSection, plan = empty_plan, logged = []\<rparr>
         [''// FILES'']) = FilesSection"
    by code_simp
  have tag: "startswith (strip ''FILE: broken'') ''FILE:''"
    by code_simp
  have nosep: "\<not> contains '' => '' ''FILE: broken''"
    by code_simp
  have "execution_plan (fst (parse_plan ?self ?text')) =
     \<lparr>files = [\<lparr>path = ''a'', content = ''b''\<rparr>], commands = [], dependencies = []\<rparr>"
    by code_simp
  with malformed_file_line_skipped [OF lines lines' files tag nosep, of ?self]
  show ?thesis by simp
qed

text \<open>
  C9. The parsed plan and the logged records depend on the input text only, not on the
  plan held before: parsing starts from a new empty plan, parsing the same text again
  changes nothing, and the rest of the object is left alone.
\<close>

theorem parse_plan_fresh:
  "execution_plan (fst (parse_plan a response)) = execution_plan (fst (parse_plan b response))
   \<and> snd (parse_plan a response) = snd (parse_plan b response)
   \<and> parse_plan (fst (parse_plan a response)) response = parse_plan a response
   \<and> project_config (fst (parse_plan a response)) = project_config a"
  by (simp add: parse_plan_def Let_def)

text \<open>
  C10. Entry fields are cut at a fixed offset one past the colon. Whatever character
  follows the colon of an accepted \<open>PKG:\<close>, \<open>SHELL:\<close> or \<open>FILE:\<close> line is dropped from
  the stored dependency, command or path, also when it is not a space.
\<close>

theorem fixed_offset_drops_char:
  "(current_section st = DependenciesSection \<and> strip raw = ''PKG:'' @ c # rest \<longrightarrow>
      parse_line st raw =
        st\<lparr>plan := (plan st)\<lparr>dependencies := dependencies (plan st) @ [strip rest]\<rparr>\<rparr>)
   \<and> (current_section st = CommandsSection \<and> strip raw = ''SHELL:'' @ c # rest \<longrightarrow>
      parse_line st raw =
        st\<lparr>plan := (plan st)\<lparr>commands := commands (plan st) @ [strip rest]\<rparr>\<rparr>)
   \<and> (current_section st = FilesSection \<and> strip raw = ''FILE:'' @ c # rest
        \<and> split_once '' => '' rest = Some (p, file_content) \<longrightarrow>
      parse_line st raw =
        st\<lparr>plan := (plan st)\<lparr>files := files (plan st) @
               [\<lparr>path = strip p, content = strip file_content\<rparr>]\<rparr>\<rparr>)"
  by (simp add: parse_line_def Let_def startswith_def)

text \<open>The three examples: \<open>PKG:x@1.0\<close>, \<open>SHELL:ls\<close> and \<open>FILE:a.txt => x\<close>.\<close>

theorem fixed_offset_examples:
  "parse_line \<lparr>current_section = DependenciesSection, plan = empty_plan, logged = []\<rparr>
       ''PKG:x@1.0'' =
     \<lparr>current_section = DependenciesSection,
      plan = \<lparr>files = [], commands = [], dependencies = [''@1.0'']\<rparr>, logged = []\<rparr>
   \<and> parse_line \<lparr>current_section = CommandsSection, plan = empty_plan, logged = []\<rparr>
       ''SHELL:ls'' =
     \<lparr>current_section = CommandsSection,
      plan = \<lparr>files = [], commands = [''s''], dependencies = []\<rparr>, logged = []\<rparr>
   \<and> parse_line \<lparr>current_section = FilesSection, plan = empty_plan, logged = []\<rparr>
       ''FILE:a.txt => x'' =
     \<lparr>current_section = FilesSection,
      plan = \<lparr>files = [\<lparr>path = ''.txt'', content = ''x''\<rparr>], commands = [],
              dependencies = []\<rparr>, logged = []\<rparr>"
proof -
  have s1: "strip ''PKG:x@1.0'' = ''PKG:'' @ CHR ''x'' # ''@1.0''"
    and s2: "strip ''SHELL:ls'' = ''SHELL:'' @ CHR ''l'' # ''s''"
    and s3: "strip ''FILE:a.txt => x'' = ''FILE:'' @ CHR ''a'' # ''.txt => x''"
    and s4: "split_once '' => '' ''.txt => x'' = Some (''.txt'', ''x'')"
    and s5: "strip ''@1.0'' = ''@1.0''" "strip ''s'' = ''s''" "strip ''.txt'' = ''.txt''"
            "strip ''x'' = ''x''"
    by (simp_all add: strip_def isspace_def)
  note t = fixed_offset_drops_char
  have 1: "parse_line \<lparr>current_section = DependenciesSection, plan = empty_plan, logged = []\<rparr>
       ''PKG:x@1.0'' =
     \<lparr>current_section = DependenciesSection,
      plan = \<lparr>files = [], commands = [], dependencies = [''@1.0'']\<rparr>, logged = []\<rparr>"
    using t [of "\<lparr>current_section = DependenciesSection, plan = empty_plan, logged = []\<rparr>"
                "''PKG:x@1.0''" "CHR ''x''" "''@1.0''"] s1 s5
    by (simp add: empty_plan_def)
  have 2: "parse_line \<lparr>current_section = CommandsSection, plan = empty_plan, logged = []\<rparr>
       ''SHELL:ls'' =
     \<lparr>current_section = CommandsSection,
      plan = \<lparr>files = [], commands = [''s''], dependencies = []\<rparr>, logged = []\<rparr>"
    using t [of "\<lparr>current_section = CommandsSection, plan = empty_plan, logged = []\<rparr>"
                "''SHELL:ls''" "CHR ''l''" "''s''"] s2 s5
    by (simp add: empty_plan_def)
  have 3: "parse_line \<lparr>current_section = FilesSection, plan = empty_plan, logged = []\<rparr>
       ''FILE:a.txt => x'' =
     \<lparr>current_section = FilesSection,
      plan = \<lparr>files = [\<lparr>path = ''.txt'', content = ''x''\<rparr>], commands = [],
              dependencies = []\<rparr>, logged = []\<rparr>"
    using t [of "\<lparr>current_section = FilesSection, plan = empty_plan, logged = []\<rparr>"
                "''FILE:a.txt => x''" "CHR ''a''" "''.txt => x''" "''.txt''" "''x''"] s3 s4 s5
    by (simp add: empty_plan_def)
  from 1 2 3 show ?thesis by simp
qed

section \<open>The shape of an execution trace\<close>

text \<open>
  The second and the third loop are the loop \<open>spawn_loop\<close> over the install commands
  and over the setup commands; the loop over the files either completes or stops at the
  first file-system call that fails. So a trace of \<open>_execute_plan\<close> has one of three
  shapes: the project directory could not be made; a file could not be created; or all
  files were created and the later stages ran.
\<close>

lemma files_events_simps [simp]:
  "files_events d [] = []"
  "files_events d (f # fs) =
     MkdirParents (parent (target d f)) # WriteText (target d f) (content f) #
     Advance FilesStage # files_events d fs"
  by (simp_all add: files_events_def)

lemma spawn_events_simps [simp]:
  "spawn_events s d [] = []"
  "spawn_events s d (c # cs) =
     Validate s c True # Run s c d # Advance s # spawn_events s d cs"
  by (simp_all add: spawn_events_def)

lemma run_commands_eq:
  "run_commands ev d cs h =
     (fst (spawn_loop ev CommandsStage d cs h), h @ snd (spawn_loop ev CommandsStage d cs h))"
  by (induction cs arbitrary: h)
     (simp_all add: accepted_def Let_def split: prod.splits option.splits)

lemma install_dependencies_eq:
  "install_dependencies ev d ds h =
     (fst (spawn_loop ev DependenciesStage d (map install_command ds) h),
      h @ snd (spawn_loop ev DependenciesStage d (map install_command ds) h))"
  by (induction ds arbitrary: h)
     (simp_all add: accepted_def install_command_def Let_def split: prod.splits option.splits)

lemma spawn_loop_returncode:
  "spawn_loop (ev\<lparr>returncode := rc\<rparr>) s d cs h = spawn_loop ev s d cs h"
  by (induction cs arbitrary: h) (simp_all add: Let_def split: option.splits)

lemma spawn_loop_member:
  "e \<in> set (snd (spawn_loop ev s d cs h)) \<Longrightarrow>
     (\<exists>c \<in> set cs. e = Validate s c (accepted c)
        \<or> (accepted c \<and> e = Run s c d) \<or> e = Advance s
        \<or> e = LogError (snd (validate_command c)))"
  by (induction cs arbitrary: h) (auto simp: Let_def split: if_splits option.splits)

lemma spawn_loop_ok:
  "fst (spawn_loop ev s d cs h) = Inr u \<Longrightarrow>
     snd (spawn_loop ev s d cs h) = spawn_events s d cs \<and> (\<forall>c \<in> set cs. accepted c)"
  by (induction cs arbitrary: h) (auto simp: Let_def split: if_splits option.splits)

lemma spawn_loop_all_accepted:
  "\<forall>h e. run_error ev h e = None \<Longrightarrow> \<forall>c \<in> set cs. accepted c \<Longrightarrow>
     spawn_loop ev s d cs h = (Inr (), spawn_events s d cs)"
  by (induction cs arbitrary: h) (simp_all add: Let_def)

lemma spawn_loop_rejected:
  assumes "\<forall>x \<in> set pre. accepted x" "\<not> accepted c"
  shows "(\<exists>x. fst (spawn_loop ev s d (pre @ c # post) h) = Inl x)
     \<and> prefix (runs s (snd (spawn_loop ev s d (pre @ c # post) h))) pre
     \<and> prefix (validated s (snd (spawn_loop ev s d (pre @ c # post) h))) (pre @ [c])
     \<and> (Validate s c False \<in> set (snd (spawn_loop ev s d (pre @ c # post) h)) \<longrightarrow>
          spawn_loop ev s d (pre @ c # post) h =
            (Inl (Exception (snd (validate_command c))),
             spawn_events s d pre @ [Validate s c False, LogError (snd (validate_command c))]))
     \<and> ((\<forall>h e. run_error ev h e = None) \<longrightarrow>
          Validate s c False \<in> set (snd (spawn_loop ev s d (pre @ c # post) h)))"
  using assms
proof (induction pre arbitrary: h)
  case Nil
  then show ?case by simp
next
  case (Cons a pre)
  then have a: "accepted a" and pre: "\<forall>x \<in> set pre. accepted x" by simp_all
  from a Cons.prems(2) have ac: "a \<noteq> c" by blast
  show ?case
  proof (cases "run_error ev (h @ [Validate s a True]) (Run s a d)")
    case (Some e)
    with a show ?thesis by auto
  next
    case None
    let ?h = "h @ [Validate s a True, Run s a d, Advance s]"
    let ?r = "spawn_loop ev s d (pre @ c # post) ?h"
    have eq: "spawn_loop ev s d ((a # pre) @ c # post) h =
        (fst ?r, Validate s a True # Run s a d # Advance s # snd ?r)"
      using a None by (simp add: Let_def)
    from Cons.IH [OF pre Cons.prems(2), of ?h] show ?thesis
      unfolding eq by (auto simp: prod_eq_iff)
  qed
qed

text \<open>
  A call of \<open>subprocess.run\<close> that raises ends the execution there: the exception goes
  up, nothing is logged, and no process was spawned.
\<close>

lemma run_commands_raises:
  assumes "accepted c"
    and "run_error ev (h @ [Validate CommandsStage c True]) (Run CommandsStage c d) = Some e"
  shows "run_commands ev d (c # rest) h =
           (Inl (SpawnError e), h @ [Validate CommandsStage c True])"
  using assms by (simp add: run_commands_eq)

lemma install_dependencies_raises:
  assumes "accepted (install_command pkg)"
    and "run_error ev (h @ [Validate DependenciesStage (install_command pkg) True])
           (Run DependenciesStage (install_command pkg) d) = Some e"
  shows "install_dependencies ev d (pkg # rest) h =
           (Inl (SpawnError e), h @ [Validate DependenciesStage (install_command pkg) True])"
  using assms by (simp add: install_dependencies_eq)

lemma create_files_shape:
  "create_files ev d fs h = (Inr (), h @ files_events d fs)
   \<or> (\<exists>e k tail m. k < length fs
         \<and> (tail = [LogError m] \<or> (\<exists>p. tail = [MkdirParents p, LogError m]))
         \<and> create_files ev d fs h =
             (Inl (FileSystemError e), h @ files_events d (take k fs) @ tail))"
proof (induction fs arbitrary: h)
  case Nil
  then show ?case by simp
next
  case (Cons f fs)
  let ?p = "target d f"
  show ?case
  proof (cases "fs_error ev h (MkdirParents (parent ?p))")
    case (Some e)
    then have "create_files ev d (f # fs) h =
        (Inl (FileSystemError e), h @ files_events d (take 0 (f # fs)) @
           [LogError (''Error creating file '' @ path f @ '': '' @ e)])"
      by (simp add: target_def)
    then show ?thesis by blast
  next
    case None
    let ?h1 = "h @ [MkdirParents (parent ?p)]"
    show ?thesis
    proof (cases "fs_error ev ?h1 (WriteText ?p (content f))")
      case (Some e)
      with None have "create_files ev d (f # fs) h =
        (Inl (FileSystemError e), h @ files_events d (take 0 (f # fs)) @
           [MkdirParents (parent ?p),
            LogError (''Error creating file '' @ path f @ '': '' @ e)])"
        by (simp add: target_def)
      then show ?thesis by blast
    next
      case None2: None
      let ?h2 = "?h1 @ [WriteText ?p (content f), Advance FilesStage]"
      from None None2 have step: "create_files ev d (f # fs) h = create_files ev d fs ?h2"
        by (simp add: target_def Let_def)
      from Cons.IH [of ?h2] show ?thesis
      proof
        assume "create_files ev d fs ?h2 = (Inr (), ?h2 @ files_events d fs)"
        with step show ?thesis by simp
      next
        assume "\<exists>e k tail m. k < length fs
           \<and> (tail = [LogError m] \<or> (\<exists>p. tail = [MkdirParents p, LogError m]))
           \<and> create_files ev d fs ?h2 =
               (Inl (FileSystemError e), ?h2 @ files_events d (take k fs) @ tail)"
        then obtain e k tail m where k: "k < length fs"
          and tail: "tail = [LogError m] \<or> (\<exists>p. tail = [MkdirParents p, LogError m])"
          and eq: "create_files ev d fs ?h2 =
               (Inl (FileSystemError e), ?h2 @ files_events d (take k fs) @ tail)"
          by blast
        from step eq have "create_files ev d (f # fs) h =
            (Inl (FileSystemError e), h @ files_events d (take (Suc k) (f # fs)) @ tail)"
          by simp
        moreover from k have "Suc k < length (f # fs)" by simp
        ultimately show ?thesis using tail by blast
      qed
    qed
  qed
qed

text \<open>
  The validator accepts \<open>echo a\0b\<close>, and the exception of \<open>subprocess.run\<close> ends the
  execution before the next command is validated.
\<close>

lemma embedded_nul_raises:
  "accepted (''echo a'' @ [CHR 0x00] @ ''b'')
   \<and> execute_plan nul_env nul_architect =
       (Inl (SpawnError ''embedded null byte''),
        [Mkdir (Path ''demo''), AddTask FilesStage 0, AddTask DependenciesStage 0,
         AddTask CommandsStage 2,
         Validate CommandsStage (''echo a'' @ [CHR 0x00] @ ''b'') True])"
  by code_simp

lemma files_events_take_drop:
  "files_events d (take k fs) @ files_events d (drop k fs) = files_events d fs"
  unfolding files_events_def by (metis append_take_drop_id concat_append map_append)

lemma files_events_member:
  "e \<in> set (files_events d fs) \<longleftrightarrow>
     (\<exists>f \<in> set fs. e = MkdirParents (parent (target d f))
        \<or> e = WriteText (target d f) (content f) \<or> e = Advance FilesStage)"
  by (induction fs) auto

lemma later_stages_member:
  "e \<in> set (snd (later_stages ev d P h)) \<Longrightarrow>
     (\<exists>s n. e = AddTask s n)
     \<or> (\<exists>h'. e \<in> set (snd (spawn_loop ev DependenciesStage d
                   (map install_command (dependencies P)) h')))
     \<or> (\<exists>h'. e \<in> set (snd (spawn_loop ev CommandsStage d (commands P) h')))"
  by (auto simp: later_stages_def Let_def split: sum.splits)

lemma execute_plan_cases [case_names no_root no_file all_files]:
  obtains
    (no_root) e where
      "execute_plan ev self =
         (Inl (FileSystemError e), [LogError (''Error creating project directory: '' @ e)])"
  | (no_file) e k tl m where
      "k < length (files (execution_plan self))"
      "tl = [LogError m] \<or> (\<exists>p. tl = [MkdirParents p, LogError m])"
      "execute_plan ev self =
         (Inl (FileSystemError e),
          Mkdir (project_dir_of self) #
          AddTask FilesStage (length (files (execution_plan self))) #
          files_events (project_dir_of self) (take k (files (execution_plan self))) @ tl)"
  | (all_files)
      "execute_plan ev self =
         (fst (later_stages ev (project_dir_of self) (execution_plan self)
                (Mkdir (project_dir_of self) #
                 AddTask FilesStage (length (files (execution_plan self))) #
                 files_events (project_dir_of self) (files (execution_plan self)))),
          (Mkdir (project_dir_of self) #
           AddTask FilesStage (length (files (execution_plan self))) #
           files_events (project_dir_of self) (files (execution_plan self))) @
          snd (later_stages ev (project_dir_of self) (execution_plan self)
                (Mkdir (project_dir_of self) #
                 AddTask FilesStage (length (files (execution_plan self))) #
                 files_events (project_dir_of self) (files (execution_plan self)))))"
proof (cases "fs_error ev [] (Mkdir (project_dir_of self))")
  case (Some e)
  then have "execute_plan ev self =
      (Inl (FileSystemError e), [LogError (''Error creating project directory: '' @ e)])"
    by (simp add: execute_plan_def Let_def)
  then show ?thesis by (rule no_root)
next
  case None
  let ?d = "project_dir_of self" and ?P = "execution_plan self"
  let ?h0 = "[Mkdir ?d, AddTask FilesStage (length (files ?P))]"
  from create_files_shape [of ev ?d "files ?P" ?h0] show ?thesis
  proof
    assume ok: "create_files ev ?d (files ?P) ?h0 = (Inr (), ?h0 @ files_events ?d (files ?P))"
    have "execute_plan ev self =
         (fst (later_stages ev ?d ?P (?h0 @ files_events ?d (files ?P))),
          (?h0 @ files_events ?d (files ?P)) @
          snd (later_stages ev ?d ?P (?h0 @ files_events ?d (files ?P))))"
      using None ok
      by (simp add: execute_plan_def Let_def install_dependencies_eq run_commands_eq
            later_stages_def split: sum.splits)
    then show ?thesis using all_files by simp
  next
    assume "\<exists>e k tail m. k < length (files ?P)
         \<and> (tail = [LogError m] \<or> (\<exists>p. tail = [MkdirParents p, LogError m]))
         \<and> create_files ev ?d (files ?P) ?h0 =
             (Inl (FileSystemError e), ?h0 @ files_events ?d (take k (files ?P)) @ tail)"
    then obtain e k tl m where k: "k < length (files ?P)"
      and tl: "tl = [LogError m] \<or> (\<exists>p. tl = [MkdirParents p, LogError m])"
      and eq: "create_files ev ?d (files ?P) ?h0 =
             (Inl (FileSystemError e), ?h0 @ files_events ?d (take k (files ?P)) @ tl)"
      by blast
    have "execute_plan ev self =
             (Inl (FileSystemError e),
              Mkdir ?d # AddTask FilesStage (length (files ?P)) #
              files_events ?d (take k (files ?P)) @ tl)"
      using None eq by (simp add: execute_plan_def Let_def)
    with k tl show ?thesis by (rule no_file)
  qed
qed

lemma execute_plan_member:
  assumes "e \<in> set (snd (execute_plan ev self))"
  shows "(\<exists>p. e = Mkdir p) \<or> (\<exists>s n. e = AddTask s n) \<or> (\<exists>p. e = MkdirParents p)
     \<or> (\<exists>m. e = LogError m)
     \<or> e \<in> set (files_events (project_dir_of self) (files (execution_plan self)))
     \<or> (\<exists>h. e \<in> set (snd (spawn_loop ev DependenciesStage (project_dir_of self)
                    (map install_command (dependencies (execution_plan self))) h)))
     \<or> (\<exists>h. e \<in> set (snd (spawn_loop ev CommandsStage (project_dir_of self)
                    (commands (execution_plan self)) h)))"
proof (cases rule: execute_plan_cases [of ev self])
  case (no_root e0)
  with assms show ?thesis by simp
next
  case (no_file e0 k tl m)
  let ?d = "project_dir_of self" and ?P = "execution_plan self"
  have "set (files_events ?d (take k (files ?P))) \<subseteq> set (files_events ?d (files ?P))"
    using files_events_take_drop [of ?d k "files ?P"] by (metis set_append Un_upper1)
  moreover from assms no_file(3)
  have "e = Mkdir ?d \<or> e = AddTask FilesStage (length (files ?P))
     \<or> e \<in> set (files_events ?d (take k (files ?P))) \<or> e \<in> set tl"
    by simp
  moreover from no_file(2) have "e \<in> set tl \<Longrightarrow> (\<exists>p. e = MkdirParents p) \<or> (\<exists>m. e = LogError m)"
    by auto
  ultimately show ?thesis by blast
next
  case all_files
  let ?d = "project_dir_of self" and ?P = "execution_plan self"
  let ?A = "Mkdir ?d # AddTask FilesStage (length (files ?P)) # files_events ?d (files ?P)"
  from assms all_files have "e = Mkdir ?d \<or> e = AddTask FilesStage (length (files ?P))
     \<or> e \<in> set (files_events ?d (files ?P)) \<or> e \<in> set (snd (later_stages ev ?d ?P ?A))"
    by simp
  with later_stages_member [of e ev ?d ?P ?A] show ?thesis by blast
qed

section \<open>Properties of the executor\<close>

lemma create_files_returncode:
  "create_files (ev\<lparr>returncode := rc\<rparr>) d fs h = create_files ev d fs h"
  by (induction fs arbitrary: h) (simp_all add: Let_def split: option.splits)

lemma create_files_ok:
  "\<forall>h e. fs_error ev h e = None \<Longrightarrow>
     create_files ev d fs h = (Inr (), h @ files_events d fs)"
  by (induction fs arbitrary: h) (simp_all add: Let_def target_def)

text \<open>
  C8. The return code of a spawned process is not inspected: with any other return
  codes the result and the trace of \<open>_execute_plan\<close> are the same, and when no call
  raises and the validator accepts every install command and every setup command, the
  plan runs to its end and returns normally, every item handled.
\<close>

theorem exit_codes_not_inspected:
  "execute_plan (ev\<lparr>returncode := rc\<rparr>) self = execute_plan ev self
   \<and> ((\<forall>h e. fs_error ev h e = None) \<and> (\<forall>h e. run_error ev h e = None)
        \<and> (\<forall>pkg \<in> set (dependencies (execution_plan self)). accepted (install_command pkg))
        \<and> (\<forall>c \<in> set (commands (execution_plan self)). accepted c) \<longrightarrow>
      execute_plan ev self =
        (Inr (),
         Mkdir (project_dir_of self) #
         AddTask FilesStage (length (files (execution_plan self))) #
         files_events (project_dir_of self) (files (execution_plan self)) @
         AddTask DependenciesStage (length (dependencies (execution_plan self))) #
         spawn_events DependenciesStage (project_dir_of self)
           (map install_command (dependencies (execution_plan self))) @
         AddTask CommandsStage (length (commands (execution_plan self))) #
         spawn_events CommandsStage (project_dir_of self) (commands (execution_plan self))))"
proof
  show "execute_plan (ev\<lparr>returncode := rc\<rparr>) self = execute_plan ev self"
    unfolding execute_plan_def create_files_returncode install_dependencies_eq
      run_commands_eq spawn_loop_returncode
    by simp
next
  let ?P = "execution_plan self"
  let ?d = "project_dir_of self"
  show "(\<forall>h e. fs_error ev h e = None) \<and> (\<forall>h e. run_error ev h e = None)
        \<and> (\<forall>pkg \<in> set (dependencies ?P). accepted (install_command pkg))
        \<and> (\<forall>c \<in> set (commands ?P). accepted c) \<longrightarrow>
      execute_plan ev self =
        (Inr (),
         Mkdir ?d # AddTask FilesStage (length (files ?P)) # files_events ?d (files ?P) @
         AddTask DependenciesStage (length (dependencies ?P)) #
         spawn_events DependenciesStage ?d (map install_command (dependencies ?P)) @
         AddTask CommandsStage (length (commands ?P)) #
         spawn_events CommandsStage ?d (commands ?P))"
  proof
    assume a: "(\<forall>h e. fs_error ev h e = None) \<and> (\<forall>h e. run_error ev h e = None)
        \<and> (\<forall>pkg \<in> set (dependencies ?P). accepted (install_command pkg))
        \<and> (\<forall>c \<in> set (commands ?P). accepted c)"
    then have fs: "\<forall>h e. fs_error ev h e = None" and run: "\<forall>h e. run_error ev h e = None"
      by blast+
    from a have "\<forall>c \<in> set (map install_command (dependencies ?P)). accepted c" by simp
    with run have ds: "spawn_loop ev DependenciesStage ?d (map install_command (dependencies ?P)) h =
        (Inr (), spawn_events DependenciesStage ?d (map install_command (dependencies ?P)))" for h
      by (rule spawn_loop_all_accepted)
    from a have "\<forall>c \<in> set (commands ?P). accepted c" by blast
    with run have cs: "spawn_loop ev CommandsStage ?d (commands ?P) h =
        (Inr (), spawn_events CommandsStage ?d (commands ?P))" for h
      by (rule spawn_loop_all_accepted)
    show "execute_plan ev self =
        (Inr (),
         Mkdir ?d # AddTask FilesStage (length (files ?P)) # files_events ?d (files ?P) @
         AddTask DependenciesStage (length (dependencies ?P)) #
         spawn_events DependenciesStage ?d (map install_command (dependencies ?P)) @
         AddTask CommandsStage (length (commands ?P)) #
         spawn_events CommandsStage ?d (commands ?P))"
      using fs
      by (simp add: execute_plan_def Let_def create_files_ok [OF fs]
            install_dependencies_eq run_commands_eq ds cs)
  qed
qed

text \<open>The demo project, every process returning 1: the plan completes all the same.\<close>

theorem exit_codes_example:
  "fst (execute_plan quiet_env demo_architect) = Inr ()
   \<and> returncode quiet_env [] ''echo hi'' = 1
   \<and> execute_plan (quiet_env\<lparr>returncode := (\<lambda>h c. 0)\<rparr>) demo_architect =
       execute_plan quiet_env demo_architect"
proof -
  have fs: "\<forall>h e. fs_error quiet_env h e = None" by (simp add: quiet_env_def)
  have run: "\<forall>h e. run_error quiet_env h e = None" by (simp add: quiet_env_def)
  have ds: "\<forall>pkg \<in> set (dependencies (execution_plan demo_architect)).
      accepted (install_command pkg)"
    by code_simp
  have cs: "\<forall>c \<in> set (commands (execution_plan demo_architect)). accepted c"
    by code_simp
  note t = exit_codes_not_inspected
    [where ev = quiet_env and self = demo_architect and rc = "\<lambda>h c. 0"]
  from fs run ds cs t have "fst (execute_plan quiet_env demo_architect) = Inr ()" by simp
  moreover have "returncode quiet_env [] ''echo hi'' = 1" by (simp add: quiet_env_def)
  moreover from t have "execute_plan (quiet_env\<lparr>returncode := (\<lambda>h c. 0)\<rparr>) demo_architect =
       execute_plan quiet_env demo_architect" by blast
  ultimately show ?thesis by blast
qed


lemma walk_append: "walk dir (ps @ qs) = walk (walk dir ps) qs"
  by (induction ps arbitrary: dir) simp_all

lemma walk_no_dotdot: "''..'' \<notin> set ps \<Longrightarrow> walk dir ps = dir @ ps"
  by (induction ps arbitrary: dir) auto

lemma relative_inside:
  assumes "\<not> absolute q" "''..'' \<notin> set (parts q)"
  shows "inside cwd d (joinpath d q)"
  using assms
  by (simp add: inside_def locate_def joinpath_def walk_append walk_no_dotdot)

text \<open>
  The executor joins the project directory and the path of the file and writes there:
  \<open>sanitize_path\<close> is not called and nothing checks where the path leads. With the
  project \<open>demo\<close> in the directory \<open>/home\<close>, the path \<open>../evil.txt\<close> is written to
  \<open>/home/evil.txt\<close> and the path \<open>/tmp/evil.txt\<close> to \<open>/tmp/evil.txt\<close>, both outside
  \<open>/home/demo\<close>.
\<close>

theorem writes_escape_root:
  "WriteText (joinpath (Path ''demo'') (Path ''../evil.txt'')) ''x''
     \<in> set (snd (execute_plan quiet_env escaping_architect))
   \<and> \<not> inside [''home''] (project_dir_of escaping_architect)
         (joinpath (Path ''demo'') (Path ''../evil.txt''))
   \<and> WriteText (joinpath (Path ''demo'') (Path ''/tmp/evil.txt'')) ''y''
     \<in> set (snd (execute_plan quiet_env escaping_architect))
   \<and> \<not> inside [''home''] (project_dir_of escaping_architect)
         (joinpath (Path ''demo'') (Path ''/tmp/evil.txt''))"
  by code_simp

text \<open>
  C3, as the code has it. Every write of the first stage goes to the project directory
  joined with the path of a file of the plan, with that file's content. The write lands
  inside the project directory when that path is relative and has no \<open>..\<close> segment.
\<close>

theorem writes_follow_paths:
  assumes "WriteText p c \<in> set (snd (execute_plan ev self))"
  shows "\<exists>f \<in> set (files (execution_plan self)).
           p = joinpath (project_dir_of self) (Path (path f)) \<and> c = content f
           \<and> (\<not> absolute (Path (path f)) \<and> ''..'' \<notin> set (parts (Path (path f)))
                \<longrightarrow> inside cwd (project_dir_of self) p)"
proof -
  from execute_plan_member [OF assms]
  have "WriteText p c \<in> set (files_events (project_dir_of self) (files (execution_plan self)))"
    by (auto dest: spawn_loop_member)
  then obtain f where f: "f \<in> set (files (execution_plan self))"
    and p: "p = target (project_dir_of self) f" and c: "c = content f"
    by (auto simp: files_events_member)
  from p have "\<not> absolute (Path (path f)) \<and> ''..'' \<notin> set (parts (Path (path f)))
                \<longrightarrow> inside cwd (project_dir_of self) p"
    by (simp add: target_def relative_inside)
  with f p c show ?thesis by (auto simp: target_def)
qed

text \<open>The file \<open>a/b.txt\<close> of the demo project is written inside \<open>/home/demo\<close>.\<close>

theorem writes_inside_example:
  "WriteText (joinpath (Path ''demo'') (Path ''a/b.txt'')) ''hello''
     \<in> set (snd (execute_plan quiet_env demo_architect))
   \<and> inside [''home''] (project_dir_of demo_architect)
         (joinpath (Path ''demo'') (Path ''a/b.txt''))"
proof -
  have m: "WriteText (joinpath (Path ''demo'') (Path ''a/b.txt'')) ''hello''
     \<in> set (snd (execute_plan quiet_env demo_architect))"
    by code_simp
  have fs: "files (execution_plan demo_architect) = [\<lparr>path = ''a/b.txt'', content = ''hello''\<rparr>]"
    by (simp add: demo_architect_def)
  have rel: "\<not> absolute (Path ''a/b.txt'') \<and> ''..'' \<notin> set (parts (Path ''a/b.txt''))"
    by code_simp
  have d: "project_dir_of demo_architect = Path ''demo''"
    by (simp add: project_dir_of_def demo_architect_def)
  from writes_follow_paths [OF m, of "[''home'']"] fs rel d
  have "inside [''home''] (project_dir_of demo_architect)
         (joinpath (Path ''demo'') (Path ''a/b.txt''))"
    by simp
  with m show ?thesis by blast
qed

subsection \<open>What a trace of each shape holds\<close>

lemma stage_ranks_append: "stage_ranks (a @ b) = stage_ranks a @ stage_ranks b"
  by (induction a) (simp_all split: option.splits)

lemma writes_append: "writes (a @ b) = writes a @ writes b"
  by (induction a rule: writes.induct) simp_all

lemma runs_append: "runs s (a @ b) = runs s a @ runs s b"
  by (induction s a rule: runs.induct) simp_all

lemma validated_append: "validated s (a @ b) = validated s a @ validated s b"
  by (induction s a rule: validated.induct) simp_all

lemma stage_ranks_one_stage:
  "\<forall>e \<in> set t. stage_of e = None \<or> stage_of e = Some s \<Longrightarrow>
     set (stage_ranks t) \<subseteq> {stage_rank s}"
  by (induction t) (auto split: option.splits)

lemma sorted_one_value: "set xs \<subseteq> {r} \<Longrightarrow> sorted xs"
  by (induction xs) auto

lemma writes_none: "\<forall>e \<in> set t. \<forall>p c. e \<noteq> WriteText p c \<Longrightarrow> writes t = []"
  by (induction t rule: writes.induct) simp_all

lemma runs_none: "\<forall>e \<in> set t. stage_of e \<noteq> Some s \<Longrightarrow> runs s t = []"
  by (induction s t rule: runs.induct) simp_all

lemma validated_none: "\<forall>e \<in> set t. stage_of e \<noteq> Some s \<Longrightarrow> validated s t = []"
  by (induction s t rule: validated.induct) simp_all

lemma stage_of_files_events:
  "e \<in> set (files_events d fs) \<Longrightarrow> stage_of e = Some FilesStage"
  by (auto simp: files_events_member)

lemma stage_of_spawn_loop:
  "e \<in> set (snd (spawn_loop ev s d cs h)) \<Longrightarrow> stage_of e = None \<or> stage_of e = Some s"
  by (auto dest!: spawn_loop_member)

lemma stage_of_spawn_events:
  "e \<in> set (spawn_events s d cs) \<Longrightarrow> stage_of e = Some s"
  by (induction cs) auto

lemma writes_files_events:
  "writes (files_events d fs) = map (\<lambda>f. (target d f, content f)) fs"
  by (induction fs) simp_all

lemma writes_spawn_loop: "writes (snd (spawn_loop ev s d cs h)) = []"
  by (rule writes_none) (auto dest!: spawn_loop_member)

lemma runs_spawn_loop: "prefix (runs s (snd (spawn_loop ev s d cs h))) cs"
  by (induction cs arbitrary: h) (simp_all add: Let_def split: option.splits)

lemma runs_spawn_loop_other: "s' \<noteq> s \<Longrightarrow> runs s' (snd (spawn_loop ev s d cs h)) = []"
  by (rule runs_none) (auto dest!: stage_of_spawn_loop)

lemma runs_spawn_events:
  "runs s' (spawn_events s d cs) = (if s' = s then cs else [])"
  by (induction cs) auto

lemma later_stages_ranks:
  "sorted (stage_ranks (snd (later_stages ev d P h)))"
proof -
  let ?h1 = "h @ [AddTask DependenciesStage (length (dependencies P))]"
  let ?I = "spawn_loop ev DependenciesStage d (map install_command (dependencies P)) ?h1"
  let ?S = "spawn_loop ev CommandsStage d (commands P)
              (?h1 @ snd ?I @ [AddTask CommandsStage (length (commands P))])"
  let ?rD = "stage_ranks (snd ?I)"
  let ?rC = "stage_ranks (snd ?S)"
  have "set ?rD \<subseteq> {stage_rank DependenciesStage}"
    by (rule stage_ranks_one_stage) (use stage_of_spawn_loop in blast)
  then have rD: "set ?rD \<subseteq> {1}" by simp
  have "set ?rC \<subseteq> {stage_rank CommandsStage}"
    by (rule stage_ranks_one_stage) (use stage_of_spawn_loop in blast)
  then have rC: "set ?rC \<subseteq> {2}" by simp
  from rD have sD: "sorted ?rD" by (rule sorted_one_value)
  from rC have sC: "sorted ?rC" by (rule sorted_one_value)
  from rD have D1: "\<And>x. x \<in> set ?rD \<Longrightarrow> x = 1" by blast
  from rC have C2: "\<And>x. x \<in> set ?rC \<Longrightarrow> x = 2" by blast
  have low: "\<forall>x \<in> set ?rD. 1 \<le> x" using D1 by fastforce
  have mid: "\<forall>x \<in> set ?rD. x \<le> 2" using D1 by fastforce
  have high: "\<forall>x \<in> set ?rC. 2 \<le> x" using C2 by fastforce
  have high1: "\<forall>x \<in> set ?rC. 1 \<le> x" using C2 by fastforce
  have cross: "\<forall>x \<in> set ?rD. \<forall>y \<in> set ?rC. x \<le> y"
  proof (intro ballI)
    fix x y assume "x \<in> set ?rD" "y \<in> set ?rC"
    then have "x = 1" "y = 2" using D1 C2 by blast+
    then show "x \<le> y" by simp
  qed
  show ?thesis
  proof (cases "fst ?I")
    case (Inl x)
    with sD low show ?thesis by (simp add: later_stages_def Let_def)
  next
    case (Inr u)
    with sD sC low mid high high1 cross show ?thesis
      by (simp add: later_stages_def Let_def stage_ranks_append sorted_append ball_Un)
  qed
qed

lemma later_stages_writes: "writes (snd (later_stages ev d P h)) = []"
  by (simp add: later_stages_def Let_def writes_append writes_spawn_loop split: sum.splits)

lemma later_stages_runs:
  "prefix (runs DependenciesStage (snd (later_stages ev d P h)))
     (map install_command (dependencies P))"
  "prefix (runs CommandsStage (snd (later_stages ev d P h))) (commands P)"
  by (simp_all add: later_stages_def Let_def runs_append runs_spawn_loop
        runs_spawn_loop_other split: sum.splits)

lemma later_stages_before_dependencies:
  "takeWhile (\<lambda>e. stage_of e \<noteq> Some DependenciesStage) (snd (later_stages ev d P h)) = []"
  by (simp add: later_stages_def Let_def split: sum.splits)

lemma later_stages_before_commands:
  assumes "\<exists>e \<in> set (snd (later_stages ev d P h)). stage_of e = Some CommandsStage"
  shows "takeWhile (\<lambda>e. stage_of e \<noteq> Some CommandsStage) (snd (later_stages ev d P h)) =
           AddTask DependenciesStage (length (dependencies P)) #
           spawn_events DependenciesStage d (map install_command (dependencies P))"
proof -
  let ?ds = "map install_command (dependencies P)"
  let ?h1 = "h @ [AddTask DependenciesStage (length (dependencies P))]"
  let ?I = "spawn_loop ev DependenciesStage d ?ds ?h1"
  show ?thesis
  proof (cases "fst ?I")
    case (Inl x)
    then have "\<forall>e \<in> set (snd (later_stages ev d P h)). stage_of e \<noteq> Some CommandsStage"
      by (auto simp: later_stages_def Let_def dest!: stage_of_spawn_loop)
    with assms show ?thesis by blast
  next
    case (Inr u)
    then have tr: "snd ?I = spawn_events DependenciesStage d ?ds"
      using spawn_loop_ok by blast
    have "\<forall>e \<in> set (spawn_events DependenciesStage d ?ds). stage_of e \<noteq> Some CommandsStage"
      by (auto dest!: stage_of_spawn_events)
    then have "takeWhile (\<lambda>e. stage_of e \<noteq> Some CommandsStage)
          (spawn_events DependenciesStage d ?ds @
           AddTask CommandsStage (length (commands P)) # rest) =
        spawn_events DependenciesStage d ?ds" for rest
      by (simp add: takeWhile_append2)
    with Inr tr show ?thesis by (simp add: later_stages_def Let_def)
  qed
qed

text \<open>
  C5. The stages run in the order files, dependencies, commands and never interleave:
  along the trace the stage of the events never goes back. The files written, the
  installs spawned and the commands spawned are each an initial part of the plan's
  list, in its order. Before the first event of the dependencies stage every file of
  the plan has been written, and before the first event of the commands stage every
  file has been written and every dependency has been installed.
\<close>

theorem stages_in_order:
  fixes ev self
  defines "t \<equiv> snd (execute_plan ev self)"
    and "d \<equiv> project_dir_of self"
    and "P \<equiv> execution_plan self"
  shows "sorted (stage_ranks t)
     \<and> prefix (writes t) (map (\<lambda>f. (target d f, content f)) (files P))
     \<and> prefix (runs DependenciesStage t) (map install_command (dependencies P))
     \<and> prefix (runs CommandsStage t) (commands P)
     \<and> ((\<exists>e \<in> set t. stage_of e = Some DependenciesStage) \<longrightarrow>
          writes (takeWhile (\<lambda>e. stage_of e \<noteq> Some DependenciesStage) t) =
            map (\<lambda>f. (target d f, content f)) (files P))
     \<and> ((\<exists>e \<in> set t. stage_of e = Some CommandsStage) \<longrightarrow>
          writes (takeWhile (\<lambda>e. stage_of e \<noteq> Some CommandsStage) t) =
            map (\<lambda>f. (target d f, content f)) (files P)
          \<and> runs DependenciesStage (takeWhile (\<lambda>e. stage_of e \<noteq> Some CommandsStage) t) =
            map install_command (dependencies P))"
proof (cases rule: execute_plan_cases [of ev self])
  case (no_root e)
  then have "t = [LogError (''Error creating project directory: '' @ e)]"
    by (simp add: t_def)
  then show ?thesis by simp
next
  case (no_file e k tl m)
  let ?A = "Mkdir d # AddTask FilesStage (length (files P)) # files_events d (take k (files P))"
  from no_file(3) have t: "t = ?A @ tl" by (simp add: t_def d_def P_def)
  have early: "\<forall>e \<in> set t. stage_of e = None \<or> stage_of e = Some FilesStage"
    using no_file(2) unfolding t by (auto dest: stage_of_files_events)
  then have "set (stage_ranks t) \<subseteq> {stage_rank FilesStage}"
    by (rule stage_ranks_one_stage)
  then have 1: "sorted (stage_ranks t)" by (rule sorted_one_value)
  from no_file(2) have "writes tl = []" by auto
  then have "writes t = take k (map (\<lambda>f. (target d f, content f)) (files P))"
    by (simp add: t writes_append writes_files_events take_map)
  then have 2: "prefix (writes t) (map (\<lambda>f. (target d f, content f)) (files P))"
    by (simp add: take_is_prefix)
  from early have noD: "\<forall>e \<in> set t. stage_of e \<noteq> Some DependenciesStage"
    and noC: "\<forall>e \<in> set t. stage_of e \<noteq> Some CommandsStage"
    by fastforce+
  from noD noC have 3: "runs DependenciesStage t = []" "runs CommandsStage t = []"
    by (simp_all add: runs_none)
  from 1 2 3 noD noC show ?thesis by simp
next
  case all_files
  let ?A = "Mkdir d # AddTask FilesStage (length (files P)) # files_events d (files P)"
  let ?L = "snd (later_stages ev d P ?A)"
  let ?W = "map (\<lambda>f. (target d f, content f)) (files P)"
  from all_files have t: "t = ?A @ ?L" by (simp add: t_def d_def P_def)
  have A: "\<forall>e \<in> set ?A. stage_of e = None \<or> stage_of e = Some FilesStage"
    by (auto dest: stage_of_files_events)
  then have "set (stage_ranks ?A) \<subseteq> {stage_rank FilesStage}"
    by (rule stage_ranks_one_stage)
  then have "set (stage_ranks ?A) \<subseteq> {0}" by simp
  then have 1: "sorted (stage_ranks t)"
    unfolding t stage_ranks_append
    by (auto simp: sorted_append sorted_one_value later_stages_ranks)
  have wA: "writes ?A = ?W" by (simp add: writes_files_events)
  then have 2: "writes t = ?W"
    unfolding t writes_append by (simp add: later_stages_writes)
  from A have "runs DependenciesStage ?A = []" "runs CommandsStage ?A = []"
    by (auto intro!: runs_none)
  then have 3: "prefix (runs DependenciesStage t) (map install_command (dependencies P))"
      "prefix (runs CommandsStage t) (commands P)"
    unfolding t runs_append by (simp_all add: later_stages_runs)
  from A have AD: "\<And>e. e \<in> set ?A \<Longrightarrow> stage_of e \<noteq> Some DependenciesStage"
    and AC: "\<And>e. e \<in> set ?A \<Longrightarrow> stage_of e \<noteq> Some CommandsStage"
    by fastforce+
  have "takeWhile (\<lambda>e. stage_of e \<noteq> Some DependenciesStage) (?A @ ?L) =
      ?A @ takeWhile (\<lambda>e. stage_of e \<noteq> Some DependenciesStage) ?L"
    by (rule takeWhile_append2) (use AD in blast)
  then have "takeWhile (\<lambda>e. stage_of e \<noteq> Some DependenciesStage) t = ?A"
    unfolding t by (simp only: later_stages_before_dependencies append_Nil2)
  with wA have 4: "writes (takeWhile (\<lambda>e. stage_of e \<noteq> Some DependenciesStage) t) = ?W"
    by simp
  have 5: "writes (takeWhile (\<lambda>e. stage_of e \<noteq> Some CommandsStage) t) = ?W
          \<and> runs DependenciesStage (takeWhile (\<lambda>e. stage_of e \<noteq> Some CommandsStage) t) =
            map install_command (dependencies P)"
    if c: "\<exists>e \<in> set t. stage_of e = Some CommandsStage"
  proof -
    from c AC have "\<exists>e \<in> set ?L. stage_of e = Some CommandsStage"
      unfolding t by auto
    then have L: "takeWhile (\<lambda>e. stage_of e \<noteq> Some CommandsStage) ?L =
           AddTask DependenciesStage (length (dependencies P)) #
           spawn_events DependenciesStage d (map install_command (dependencies P))"
      by (rule later_stages_before_commands)
    have "takeWhile (\<lambda>e. stage_of e \<noteq> Some CommandsStage) (?A @ ?L) =
        ?A @ takeWhile (\<lambda>e. stage_of e \<noteq> Some CommandsStage) ?L"
      by (rule takeWhile_append2) (use AC in blast)
    then have tw: "takeWhile (\<lambda>e. stage_of e \<noteq> Some CommandsStage) t =
        ?A @ AddTask DependenciesStage (length (dependencies P)) #
           spawn_events DependenciesStage d (map install_command (dependencies P))"
      unfolding t by (simp only: L)
    have "writes (spawn_events DependenciesStage d (map install_command (dependencies P))) = []"
      by (rule writes_none) (auto dest!: stage_of_spawn_events)
    then show ?thesis
      unfolding tw writes_append runs_append
      by (simp add: writes_files_events runs_spawn_events runs_none stage_of_files_events)
  qed
  from 1 2 3 4 5 show ?thesis by simp
qed

text \<open>The demo project: one file, one dependency, one command.\<close>

theorem stages_in_order_example:
  "sorted (stage_ranks (snd (execute_plan quiet_env demo_architect)))
   \<and> writes (takeWhile (\<lambda>e. stage_of e \<noteq> Some DependenciesStage)
         (snd (execute_plan quiet_env demo_architect))) =
       [(joinpath (Path ''demo'') (Path ''a/b.txt''), ''hello'')]
   \<and> runs DependenciesStage (takeWhile (\<lambda>e. stage_of e \<noteq> Some CommandsStage)
         (snd (execute_plan quiet_env demo_architect))) =
       [''npm install left-pad@1.0.0'']"
proof -
  have exD: "\<exists>e \<in> set (snd (execute_plan quiet_env demo_architect)).
      stage_of e = Some DependenciesStage"
    by code_simp
  have exC: "\<exists>e \<in> set (snd (execute_plan quiet_env demo_architect)).
      stage_of e = Some CommandsStage"
    by code_simp
  have d: "project_dir_of demo_architect = Path ''demo''"
    by (simp add: project_dir_of_def demo_architect_def)
  have P: "files (execution_plan demo_architect) = [\<lparr>path = ''a/b.txt'', content = ''hello''\<rparr>]"
    "dependencies (execution_plan demo_architect) = [''left-pad@1.0.0'']"
    by (simp_all add: demo_architect_def)
  from stages_in_order [where ev = quiet_env and self = demo_architect] exD exC
  show ?thesis
    by (simp add: d P target_def install_command_def)
qed

subsection \<open>Validation before every spawn\<close>

lemma runs_validated_append:
  assumes a: "runs_validated a" and b: "runs_validated b"
  shows "runs_validated (a @ b)"
  unfolding runs_validated_def
proof (intro allI impI)
  fix i s c d
  assume i: "i < length (a @ b)" and run: "(a @ b) ! i = Run s c d"
  show "0 < i \<and> (a @ b) ! (i - 1) = Validate s c True"
  proof (cases "i < length a")
    case True
    with run have "a ! i = Run s c d" by (simp add: nth_append)
    with a True have "0 < i" "a ! (i - 1) = Validate s c True"
      unfolding runs_validated_def by blast+
    moreover from True have "i - 1 < length a" by arith
    then have "(a @ b) ! (i - 1) = a ! (i - 1)" by (simp add: nth_append)
    ultimately show ?thesis by simp
  next
    case False
    define j where "j = i - length a"
    from False i have j: "j < length b" by (simp add: j_def)
    from False run have "b ! j = Run s c d" by (simp add: nth_append j_def)
    with b j have pos: "0 < j" and prev: "b ! (j - 1) = Validate s c True"
      unfolding runs_validated_def by blast+
    from pos False have "i - 1 = length a + (j - 1)" unfolding j_def by arith
    then have "(a @ b) ! (i - 1) = b ! (j - 1)" by (simp only: nth_append_length_plus)
    with prev pos show ?thesis by (simp add: j_def)
  qed
qed

lemma runs_validated_no_runs:
  "\<forall>e \<in> set t. \<forall>s c d. e \<noteq> Run s c d \<Longrightarrow> runs_validated t"
  unfolding runs_validated_def by (metis nth_mem)

lemma runs_validated_item: "runs_validated [Validate s c True, Run s c d, Advance s]"
  unfolding runs_validated_def by (auto simp: nth_Cons' less_Suc_eq)

lemma runs_validated_spawn_loop: "runs_validated (snd (spawn_loop ev s d cs h))"
proof (induction cs arbitrary: h)
  case Nil
  show ?case by (simp add: runs_validated_def)
next
  case (Cons c cs)
  show ?case
  proof (cases "accepted c")
    case False
    have "runs_validated [Validate s c False, LogError (snd (validate_command c))]"
      by (rule runs_validated_no_runs) simp
    with False show ?thesis by simp
  next
    case True
    show ?thesis
    proof (cases "run_error ev (h @ [Validate s c True]) (Run s c d)")
      case (Some e)
      have "runs_validated [Validate s c True]"
        by (rule runs_validated_no_runs) simp
      with True Some show ?thesis by simp
    next
      case None
      let ?h = "h @ [Validate s c True, Run s c d, Advance s]"
      have "runs_validated ([Validate s c True, Run s c d, Advance s] @
          snd (spawn_loop ev s d cs ?h))"
        using runs_validated_item Cons.IH by (rule runs_validated_append)
      with True None show ?thesis by (simp add: Let_def)
    qed
  qed
qed

lemma runs_validated_later_stages: "runs_validated (snd (later_stages ev d P h))"
proof -
  let ?h1 = "h @ [AddTask DependenciesStage (length (dependencies P))]"
  let ?I = "spawn_loop ev DependenciesStage d (map install_command (dependencies P)) ?h1"
  let ?S = "spawn_loop ev CommandsStage d (commands P)
              (?h1 @ snd ?I @ [AddTask CommandsStage (length (commands P))])"
  have add: "runs_validated [AddTask s n]" for s n
    by (rule runs_validated_no_runs) simp
  have D: "runs_validated ([AddTask DependenciesStage (length (dependencies P))] @ snd ?I)"
    using add runs_validated_spawn_loop by (rule runs_validated_append)
  have C: "runs_validated ([AddTask CommandsStage (length (commands P))] @ snd ?S)"
    using add runs_validated_spawn_loop by (rule runs_validated_append)
  from D C have "runs_validated
     (([AddTask DependenciesStage (length (dependencies P))] @ snd ?I) @
      ([AddTask CommandsStage (length (commands P))] @ snd ?S))"
    by (rule runs_validated_append)
  with D show ?thesis
    by (cases "fst ?I") (simp_all add: later_stages_def Let_def)
qed

lemma runs_validated_execute_plan: "runs_validated (snd (execute_plan ev self))"
proof (cases rule: execute_plan_cases [of ev self])
  case (no_root e)
  then show ?thesis by (simp add: runs_validated_no_runs)
next
  case (no_file e k tl m)
  have "\<forall>x \<in> set (snd (execute_plan ev self)). \<forall>s c d. x \<noteq> Run s c d"
    using no_file(2,3) by (auto simp: files_events_member)
  then show ?thesis by (rule runs_validated_no_runs)
next
  case all_files
  let ?d = "project_dir_of self" and ?P = "execution_plan self"
  let ?A = "Mkdir ?d # AddTask FilesStage (length (files ?P)) # files_events ?d (files ?P)"
  have "runs_validated ?A"
    by (rule runs_validated_no_runs) (auto simp: files_events_member)
  then have "runs_validated (?A @ snd (later_stages ev ?d ?P ?A))"
    using runs_validated_later_stages by (rule runs_validated_append)
  with all_files show ?thesis by simp
qed

text \<open>
  C6. Every process the executor spawns was given to the validator immediately before,
  as the same string in the same stage, and was accepted; it runs in the project
  directory. A spawn of the dependencies stage is the install command \<open>npm install\<close>
  of a dependency of the plan, and a spawn of the commands stage is a command of the
  plan. Every verdict in the trace is the validator's verdict on that string.
\<close>

theorem spawns_validated:
  fixes ev self
  defines "t \<equiv> snd (execute_plan ev self)"
    and "d \<equiv> project_dir_of self"
    and "P \<equiv> execution_plan self"
  shows "(\<forall>i < length t. \<forall>s c dir. t ! i = Run s c dir \<longrightarrow>
            0 < i \<and> t ! (i - 1) = Validate s c True \<and> fst (validate_command c) \<and> dir = d
            \<and> (s = DependenciesStage \<and> (\<exists>pkg \<in> set (dependencies P). c = ''npm install '' @ pkg)
               \<or> s = CommandsStage \<and> c \<in> set (commands P)))
       \<and> (\<forall>s c v. Validate s c v \<in> set t \<longrightarrow> v = fst (validate_command c))"
proof (intro conjI allI impI)
  fix i s c dir
  assume i: "i < length t" and run: "t ! i = Run s c dir"
  have "runs_validated t" unfolding t_def by (rule runs_validated_execute_plan)
  with i run show "0 < i" and "t ! (i - 1) = Validate s c True"
    unfolding runs_validated_def by blast+
  from i run have "Run s c dir \<in> set t" by (metis nth_mem)
  from execute_plan_member [OF this [unfolded t_def]]
  have "(\<exists>h. Run s c dir \<in> set (snd (spawn_loop ev DependenciesStage d
            (map install_command (dependencies P)) h)))
      \<or> (\<exists>h. Run s c dir \<in> set (snd (spawn_loop ev CommandsStage d (commands P) h)))"
    by (auto simp: files_events_member d_def P_def)
  then have "fst (validate_command c) \<and> dir = d
      \<and> (s = DependenciesStage \<and> (\<exists>pkg \<in> set (dependencies P). c = ''npm install '' @ pkg)
         \<or> s = CommandsStage \<and> c \<in> set (commands P))"
    by (auto dest!: spawn_loop_member simp: accepted_def install_command_def)
  then show "fst (validate_command c)" and "dir = d"
    and "s = DependenciesStage \<and> (\<exists>pkg \<in> set (dependencies P). c = ''npm install '' @ pkg)
         \<or> s = CommandsStage \<and> c \<in> set (commands P)"
    by blast+
next
  fix s c v
  assume "Validate s c v \<in> set t"
  from execute_plan_member [OF this [unfolded t_def]]
  have "(\<exists>h. Validate s c v \<in> set (snd (spawn_loop ev DependenciesStage d
            (map install_command (dependencies P)) h)))
      \<or> (\<exists>h. Validate s c v \<in> set (snd (spawn_loop ev CommandsStage d (commands P) h)))"
    by (auto simp: files_events_member d_def P_def)
  then show "v = fst (validate_command c)"
    by (auto dest!: spawn_loop_member simp: accepted_def)
qed

text \<open>The install of the demo project: event 6 validates what event 7 spawns.\<close>

theorem spawns_validated_example:
  "snd (execute_plan quiet_env demo_architect) ! 7 =
     Run DependenciesStage ''npm install left-pad@1.0.0'' (Path ''demo'')
   \<and> snd (execute_plan quiet_env demo_architect) ! 6 =
     Validate DependenciesStage ''npm install left-pad@1.0.0'' True
   \<and> fst (validate_command ''npm install left-pad@1.0.0'')"
proof -
  let ?t = "snd (execute_plan quiet_env demo_architect)"
  let ?c = "''npm install left-pad@1.0.0''"
  have len: "7 < length ?t" by code_simp
  have run: "?t ! 7 = Run DependenciesStage ?c (Path ''demo'')" by code_simp
  from spawns_validated [where ev = quiet_env and self = demo_architect] len run
  have "?t ! (7 - 1) = Validate DependenciesStage ?c True \<and> fst (validate_command ?c)"
    by blast
  with run show ?thesis by simp
qed

subsection \<open>A rejected command\<close>

lemma rejected_message:
  "\<not> fst (validate_command c) \<Longrightarrow>
     snd (validate_command c) = ''Dangerous command detected: '' @ c"
  by (simp add: validate_command_def validate_loop_eq split: if_splits)

lemma validated_spawn_loop_other:
  "s' \<noteq> s \<Longrightarrow> validated s' (snd (spawn_loop ev s d cs h)) = []"
  by (rule validated_none) (auto dest!: stage_of_spawn_loop)

lemma execute_plan_no_fs_error:
  assumes fs: "\<forall>h e. fs_error ev h e = None"
  shows "execute_plan ev self =
     (fst (later_stages ev (project_dir_of self) (execution_plan self)
        (Mkdir (project_dir_of self) #
         AddTask FilesStage (length (files (execution_plan self))) #
         files_events (project_dir_of self) (files (execution_plan self)))),
      (Mkdir (project_dir_of self) #
       AddTask FilesStage (length (files (execution_plan self))) #
       files_events (project_dir_of self) (files (execution_plan self))) @
      snd (later_stages ev (project_dir_of self) (execution_plan self)
        (Mkdir (project_dir_of self) #
         AddTask FilesStage (length (files (execution_plan self))) #
         files_events (project_dir_of self) (files (execution_plan self)))))"
  using fs
  by (simp add: execute_plan_def Let_def create_files_ok [OF fs] install_dependencies_eq
        run_commands_eq later_stages_def split: sum.splits)

text \<open>
  C4. Let the commands of the plan hold a rejected command, \<open>c\<close> being the first one.
  Then in every environment the execution raises; the commands spawned are an initial
  part of the commands before \<open>c\<close>, and the commands validated an initial part of those
  up to \<open>c\<close>, so nothing after \<open>c\<close> is validated or spawned. Unless a file-system call
  failed, every file of the plan has been written. When the run comes to \<open>c\<close>, it raises
  there with the validator's message: the trace is all files written, all dependencies
  installed, the commands before \<open>c\<close> run, then the rejection, and nothing after it, so
  nothing is undone. The run comes to \<open>c\<close> whenever no call raises (no file-system call
  and no call of \<open>subprocess.run\<close>) and every install command is accepted.
\<close>

theorem rejected_command_aborts:
  fixes ev self
  defines "t \<equiv> snd (execute_plan ev self)"
    and "d \<equiv> project_dir_of self"
    and "P \<equiv> execution_plan self"
  assumes cmds: "commands P = pre @ c # post"
    and pre: "\<forall>x \<in> set pre. fst (validate_command x)"
    and rej: "\<not> fst (validate_command c)"
  shows "(\<exists>x. fst (execute_plan ev self) = Inl x)
     \<and> prefix (runs CommandsStage t) pre
     \<and> prefix (validated CommandsStage t) (pre @ [c])
     \<and> ((\<forall>e. fst (execute_plan ev self) \<noteq> Inl (FileSystemError e)) \<longrightarrow>
          writes t = map (\<lambda>f. (target d f, content f)) (files P))
     \<and> (Validate CommandsStage c False \<in> set t \<longrightarrow>
          fst (execute_plan ev self) = Inl (Exception (''Dangerous command detected: '' @ c))
          \<and> t = Mkdir d # AddTask FilesStage (length (files P)) # files_events d (files P) @
                AddTask DependenciesStage (length (dependencies P)) #
                spawn_events DependenciesStage d (map install_command (dependencies P)) @
                AddTask CommandsStage (length (commands P)) #
                spawn_events CommandsStage d pre @
                [Validate CommandsStage c False,
                 LogError (''Dangerous command detected: '' @ c)])
     \<and> ((\<forall>h e. fs_error ev h e = None) \<and> (\<forall>h e. run_error ev h e = None)
          \<and> (\<forall>pkg \<in> set (dependencies P). fst (validate_command (''npm install '' @ pkg)))
          \<longrightarrow> Validate CommandsStage c False \<in> set t)"
proof -
  let ?msg = "''Dangerous command detected: '' @ c"
  let ?ds = "map install_command (dependencies P)"
  let ?W = "map (\<lambda>f. (target d f, content f)) (files P)"
  let ?A = "Mkdir d # AddTask FilesStage (length (files P)) # files_events d (files P)"
  let ?h1 = "?A @ [AddTask DependenciesStage (length (dependencies P))]"
  let ?I = "spawn_loop ev DependenciesStage d ?ds ?h1"
  let ?h2 = "?h1 @ snd ?I @ [AddTask CommandsStage (length (commands P))]"
  let ?S = "spawn_loop ev CommandsStage d (pre @ c # post) ?h2"
  let ?L = "later_stages ev d P ?A"
  let ?end = "[Validate CommandsStage c False, LogError ?msg]"
  from pre have pre': "\<forall>x \<in> set pre. accepted x" by (simp add: accepted_def)
  from rej have rej': "\<not> accepted c" by (simp add: accepted_def)
  from rej have msg: "snd (validate_command c) = ?msg" by (rule rejected_message)
  note S = spawn_loop_rejected [OF pre' rej', of ev CommandsStage d post ?h2, unfolded msg]
  have L_bad: "?L = (Inl x, AddTask DependenciesStage (length (dependencies P)) # snd ?I)"
    if "fst ?I = Inl x" for x
    using that by (simp add: later_stages_def Let_def)
  have L_ok: "?L = (fst ?S,
      AddTask DependenciesStage (length (dependencies P)) #
      spawn_events DependenciesStage d ?ds @
      AddTask CommandsStage (length (commands P)) # snd ?S)"
    and I_ok: "snd ?I = spawn_events DependenciesStage d ?ds"
    if "fst ?I = Inr u" for u
  proof -
    from that show I: "snd ?I = spawn_events DependenciesStage d ?ds"
      using spawn_loop_ok by blast
    from that show "?L = (fst ?S,
      AddTask DependenciesStage (length (dependencies P)) #
      spawn_events DependenciesStage d ?ds @
      AddTask CommandsStage (length (commands P)) # snd ?S)"
      by (simp add: later_stages_def Let_def cmds I [symmetric])
  qed
  have noC: "\<forall>e \<in> set (snd ?I). stage_of e \<noteq> Some CommandsStage"
    by (auto dest!: stage_of_spawn_loop)
  have evC: "\<forall>e \<in> set (spawn_events DependenciesStage d ?ds). stage_of e \<noteq> Some CommandsStage"
    by (auto dest!: stage_of_spawn_events)
  have L_abort: "\<exists>x. fst ?L = Inl x"
  proof (cases "fst ?I")
    case (Inl x)
    from L_bad [OF this] show ?thesis by simp
  next
    case (Inr u)
    from L_ok [OF this] S show ?thesis by simp
  qed
  have L_runs: "prefix (runs CommandsStage (snd ?L)) pre"
    and L_validated: "prefix (validated CommandsStage (snd ?L)) (pre @ [c])"
  proof -
    show "prefix (runs CommandsStage (snd ?L)) pre"
    proof (cases "fst ?I")
      case (Inl x)
      from L_bad [OF this] noC show ?thesis by (simp add: runs_none)
    next
      case (Inr u)
      from L_ok [OF this] S evC show ?thesis by (simp add: runs_append runs_none)
    qed
    show "prefix (validated CommandsStage (snd ?L)) (pre @ [c])"
    proof (cases "fst ?I")
      case (Inl x)
      from L_bad [OF this] noC show ?thesis by (simp add: validated_none)
    next
      case (Inr u)
      from L_ok [OF this] S evC show ?thesis by (simp add: validated_append validated_none)
    qed
  qed
  have L_reached: "?L = (Inl (Exception ?msg),
      AddTask DependenciesStage (length (dependencies P)) #
      spawn_events DependenciesStage d ?ds @
      AddTask CommandsStage (length (commands P)) #
      spawn_events CommandsStage d pre @ ?end)"
    if v: "Validate CommandsStage c False \<in> set (snd ?L)"
  proof (cases "fst ?I")
    case (Inl x)
    from L_bad [OF this] v have "Validate CommandsStage c False \<in> set (snd ?I)" by simp
    with noC show ?thesis by fastforce
  next
    case (Inr u)
    from L_ok [OF this] v evC have "Validate CommandsStage c False \<in> set (snd ?S)"
      by auto
    with S have "?S = (Inl (Exception ?msg), spawn_events CommandsStage d pre @ ?end)"
      by blast
    with L_ok [OF Inr] show ?thesis by simp
  qed
  \<comment> \<open>the conjuncts that depend on the shape of the trace\<close>
  have shape: "(\<exists>x. fst (execute_plan ev self) = Inl x)
     \<and> prefix (runs CommandsStage t) pre
     \<and> prefix (validated CommandsStage t) (pre @ [c])
     \<and> ((\<forall>e. fst (execute_plan ev self) \<noteq> Inl (FileSystemError e)) \<longrightarrow> writes t = ?W)
     \<and> (Validate CommandsStage c False \<in> set t \<longrightarrow>
          fst (execute_plan ev self) = Inl (Exception ?msg)
          \<and> t = ?A @ AddTask DependenciesStage (length (dependencies P)) #
                spawn_events DependenciesStage d ?ds @
                AddTask CommandsStage (length (commands P)) #
                spawn_events CommandsStage d pre @ ?end)"
  proof (cases rule: execute_plan_cases [of ev self])
    case (no_root e)
    then show ?thesis by (simp add: t_def)
  next
    case (no_file e k tl m)
    have early: "\<forall>x \<in> set t. stage_of x \<noteq> Some CommandsStage"
      using no_file(2,3) unfolding t_def by (auto dest: stage_of_files_events)
    then have "runs CommandsStage t = []" "validated CommandsStage t = []"
      by (simp_all add: runs_none validated_none)
    moreover from early have "Validate CommandsStage c False \<notin> set t" by fastforce
    ultimately show ?thesis using no_file(3) by simp
  next
    case all_files
    then have t: "t = ?A @ snd ?L" and r: "fst (execute_plan ev self) = fst ?L"
      by (simp_all add: t_def d_def P_def)
    have A: "\<forall>x \<in> set ?A. stage_of x \<noteq> Some CommandsStage"
      by (auto dest: stage_of_files_events)
    then have "runs CommandsStage ?A = []" "validated CommandsStage ?A = []"
      by (simp_all only: runs_none validated_none)
    then have 2: "prefix (runs CommandsStage t) pre"
      and 3: "prefix (validated CommandsStage t) (pre @ [c])"
      unfolding t runs_append validated_append using L_runs L_validated by simp_all
    have 4: "writes t = ?W"
      unfolding t writes_append by (simp add: writes_files_events later_stages_writes)
    have 5: "fst (execute_plan ev self) = Inl (Exception ?msg)
          \<and> t = ?A @ AddTask DependenciesStage (length (dependencies P)) #
                spawn_events DependenciesStage d ?ds @
                AddTask CommandsStage (length (commands P)) #
                spawn_events CommandsStage d pre @ ?end"
      if v: "Validate CommandsStage c False \<in> set t"
    proof -
      from v A have "Validate CommandsStage c False \<in> set (snd ?L)"
        unfolding t by auto
      from L_reached [OF this] show ?thesis unfolding t r by simp
    qed
    from L_abort r 2 3 4 5 show ?thesis by simp
  qed
  \<comment> \<open>the run reaches the command when nothing before it raises\<close>
  have reach: "Validate CommandsStage c False \<in> set t"
    if fs: "\<forall>h e. fs_error ev h e = None"
      and run: "\<forall>h e. run_error ev h e = None"
      and ds: "\<forall>pkg \<in> set (dependencies P). fst (validate_command (''npm install '' @ pkg))"
  proof -
    from ds have "\<forall>x \<in> set ?ds. accepted x"
      by (simp add: accepted_def install_command_def)
    with run have "?I = (Inr (), spawn_events DependenciesStage d ?ds)"
      by (rule spawn_loop_all_accepted)
    then have "fst ?I = Inr ()" by simp
    from L_ok [OF this] have L: "snd ?L =
       AddTask DependenciesStage (length (dependencies P)) #
       spawn_events DependenciesStage d ?ds @
       AddTask CommandsStage (length (commands P)) # snd ?S"
      by simp
    from S run have "Validate CommandsStage c False \<in> set (snd ?S)" by blast
    moreover have "t = ?A @ snd ?L"
      using execute_plan_no_fs_error [OF fs, of self] by (simp add: t_def d_def P_def)
    ultimately show ?thesis unfolding L by simp
  qed
  from shape reach show ?thesis by simp
qed

text \<open>The demo project with \<open>sudo rm -rf /\<close> as its second command.\<close>

theorem rejected_command_example:
  "fst (execute_plan quiet_env rejecting_architect) =
     Inl (Exception ''Dangerous command detected: sudo rm -rf /'')
   \<and> runs CommandsStage (snd (execute_plan quiet_env rejecting_architect)) = [''echo hi'']
   \<and> validated CommandsStage (snd (execute_plan quiet_env rejecting_architect)) =
       [''echo hi'', ''sudo rm -rf /'']
   \<and> writes (snd (execute_plan quiet_env rejecting_architect)) =
       [(joinpath (Path ''demo'') (Path ''a/b.txt''), ''hello'')]"
proof -
  let ?t = "snd (execute_plan quiet_env rejecting_architect)"
  have cmds: "commands (execution_plan rejecting_architect) =
      [''echo hi''] @ ''sudo rm -rf /'' # [''echo later'']"
    by (simp add: rejecting_architect_def)
  have pre: "\<forall>x \<in> set [''echo hi'']. fst (validate_command x)" by code_simp
  have rej: "\<not> fst (validate_command ''sudo rm -rf /'')" by code_simp
  have fs: "\<forall>h e. fs_error quiet_env h e = None" by (simp add: quiet_env_def)
  have run: "\<forall>h e. run_error quiet_env h e = None" by (simp add: quiet_env_def)
  have ds: "\<forall>pkg \<in> set (dependencies (execution_plan rejecting_architect)).
      fst (validate_command (''npm install '' @ pkg))"
    by code_simp
  have d: "project_dir_of rejecting_architect = Path ''demo''"
    by (simp add: project_dir_of_def rejecting_architect_def)
  have P: "files (execution_plan rejecting_architect) =
      [\<lparr>path = ''a/b.txt'', content = ''hello''\<rparr>]"
    "dependencies (execution_plan rejecting_architect) = [''left-pad@1.0.0'']"
    by (simp_all add: rejecting_architect_def)
  note T = rejected_command_aborts [OF cmds pre rej, of quiet_env]
  from T fs run ds have reached: "Validate CommandsStage ''sudo rm -rf /'' False \<in> set ?t"
    by blast
  with T have res: "fst (execute_plan quiet_env rejecting_architect) =
      Inl (Exception ''Dangerous command detected: sudo rm -rf /'')"
    and tr: "?t = Mkdir (project_dir_of rejecting_architect) #
        AddTask FilesStage (length (files (execution_plan rejecting_architect))) #
        files_events (project_dir_of rejecting_architect)
          (files (execution_plan rejecting_architect)) @
        AddTask DependenciesStage (length (dependencies (execution_plan rejecting_architect))) #
        spawn_events DependenciesStage (project_dir_of rejecting_architect)
          (map install_command (dependencies (execution_plan rejecting_architect))) @
        AddTask CommandsStage (length (commands (execution_plan rejecting_architect))) #
        spawn_events CommandsStage (project_dir_of rejecting_architect) [''echo hi''] @
        [Validate CommandsStage ''sudo rm -rf /'' False,
         LogError ''Dangerous command detected: sudo rm -rf /'']"
    by simp_all
  have "runs CommandsStage ?t = [''echo hi'']"
    and "validated CommandsStage ?t = [''echo hi'', ''sudo rm -rf /'']"
    and "writes ?t = [(joinpath (Path ''demo'') (Path ''a/b.txt''), ''hello'')]"
    unfolding tr by (simp_all add: d P target_def install_command_def)
  with res show ?thesis by simp
qed

end
